theory Spec2Isabelle
  imports Complex_Main "HOL-Library.Log_Nat"
begin

section \<open>ColorChain: the game engine of script.js\<close>

text \<open>
  The engine of \<^verbatim>\<open>src/script.js\<close>: the board, the scoring function, the gravity
  collapse, the flood fill that looks for an available move, the reshuffle loop, and
  the drag selection with its turn counter. The two other variants of the script in
  the repository differ from it, in the functions modelled here, by comments, variable
  names and visual effects only.

  Conventions of the embedding.
  \<^item> A JavaScript number that the code only uses as a small integer (a row, a
    counter, the clock, the score) is an \<open>int\<close>, or a \<open>nat\<close> for a counter that only
    counts up. The one place with fractions, \<open>calculateScore\<close>, is computed in binary64
    as the script does: every operation is the exact rational result rounded to the
    nearest binary64 number (\<open>binary64\<close> below).
  \<^item> \<open>null\<close> is \<open>None\<close>: a board cell is a \<open>colour option\<close>.
  \<^item> A tile element is identified with its \<open>(dataset.row, dataset.col)\<close> pair.
    \<open>renderBoard(true)\<close> creates exactly one element per position, and only
    \<open>initBoard\<close>, which \<open>startGame\<close> calls, creates elements. As long as no round is
    started in the middle of a drag, the elements in \<open>selectedPath\<close> are the ones on the
    page, and an element and its position determine each other. After a round start in
    the middle of a drag the path holds elements that are no longer on the page;
    \<open>indexOf\<close> then never finds an entered element, which the positions alone do not
    tell. The theorems about \<open>handleEnter\<close> on paths are stated for drags without a
    round start (\<open>dragging\<close> below).
  \<^item> \<open>Math.random()\<close>, where it chooses the colour of a cell, is the next value of an
    explicit random source, a function from the number of such draws made so far to a
    rational of the unit interval. The draws of the particle effects and of the sound
    are left out with the effects: the source is the sequence of the colour draws.
  \<^item> Rendering, sound, storage and the leaderboard are left out; timers are state.
\<close>

subsection \<open>Board constants\<close>

datatype colour = Red | Blue | Yellow | Green | Purple

definition ROWS :: int where
  "ROWS = 6"

definition COLS :: int where
  "COLS = 6"

definition COLOURS :: "colour list" where
  "COLOURS = [Red, Blue, Yellow, Green, Purple]"

type_synonym cell = "colour option"

type_synonym board = "cell list list"

type_synonym tile = "int \<times> int"

text \<open>\<open>board[r][c]\<close> and \<open>board[r][c] = v\<close>. Every access of the code is in bounds
  for a 6 by 6 board and a tile of the board; the theorems below assume as much.\<close>

definition cellAt :: "board \<Rightarrow> int \<Rightarrow> int \<Rightarrow> cell" where
  "cellAt b r c = b ! nat r ! nat c"

definition setCell :: "board \<Rightarrow> int \<Rightarrow> int \<Rightarrow> cell \<Rightarrow> board" where
  "setCell b r c v = b[nat r := (b ! nat r)[nat c := v]]"

definition wf_board :: "board \<Rightarrow> bool" where
  "wf_board b \<longleftrightarrow> int (length b) = ROWS \<and> (\<forall>row \<in> set b. int (length row) = COLS)"

definition full_board :: "board \<Rightarrow> bool" where
  "full_board b \<longleftrightarrow> wf_board b \<and> (\<forall>row \<in> set b. \<forall>x \<in> set row. x \<noteq> None)"

definition in_bounds :: "tile \<Rightarrow> bool" where
  "in_bounds p \<longleftrightarrow> 0 \<le> fst p \<and> fst p < ROWS \<and> 0 \<le> snd p \<and> snd p < COLS"

subsection \<open>Numbers\<close>

text \<open>A finite JavaScript number is a binary64 value: zero, or a 53-bit significand
  times a power of two. It is modelled by the rational it denotes. \<open>ilog2 x\<close> is the
  binary exponent of a positive \<open>x\<close>, the \<open>e\<close> with \<open>2^e \<le> x < 2^(e+1)\<close>.\<close>

definition ilog2 :: "rat \<Rightarrow> int" where
  "ilog2 x = (if 1 \<le> x then bitlen \<lfloor>x\<rfloor> - 1 else - bitlen (\<lceil>1 / x\<rceil> - 1))"

text \<open>Rounding to the nearest integer, a tie going to the even one.\<close>

definition round_ties_even :: "rat \<Rightarrow> int" where
  "round_ties_even q =
     (let n = \<lfloor>q\<rfloor>; r = q - rat_of_int n
      in if r < 1 / 2 then n else if 1 / 2 < r then n + 1 else if even n then n else n + 1)"

text \<open>The binary64 number nearest to \<open>x\<close>, a tie going to the even significand: the
  result of every arithmetic operation of the script, and the value of a literal. The
  unit in the last place is \<open>2^(e - 52)\<close>, the exponent not going below \<open>-1022\<close>
  (subnormal numbers). Results of magnitude \<open>2^1024\<close> and more, where the script has
  \<open>Infinity\<close>, are outside the model; nothing below comes near them.\<close>

definition binary64 :: "rat \<Rightarrow> rat" where
  "binary64 x =
     (if x = 0 then 0
      else let e = max (ilog2 \<bar>x\<bar>) (- 1022); u = 2 powi (e - 52)
           in rat_of_int (round_ties_even (x / u)) * u)"

subsection \<open>Scoring\<close>

text \<open>\<open>Math.round\<close>: the nearest integer, a tie going up. It is exact: it returns an
  integer that is a binary64 number whenever its argument is one.\<close>

definition js_round :: "rat \<Rightarrow> int" where
  "js_round x = \<lfloor>x + 1 / 2\<rfloor>"

text \<open>\<open>calculateScore\<close>, operation by operation: \<open>length * length * 10\<close> is two
  products, \<open>base * 0.15 * turns\<close> is \<open>(base * 0.15) * turns\<close> with the literal \<open>0.15\<close>
  the binary64 number nearest to \<open>15/100\<close>. The arguments are numbers that hold
  integers.\<close>

definition calculateScore :: "int \<Rightarrow> int \<Rightarrow> int \<Rightarrow> int" where
  "calculateScore length' turns multiplier =
     (let base = binary64 (binary64 (rat_of_int length' * rat_of_int length') * 10);
          turnBonus = binary64 (binary64 (base * binary64 (15 / 100)) * rat_of_int turns)
      in js_round (binary64 (binary64 (base + turnBonus) * rat_of_int multiplier)))"

text \<open>The specification's formula, in exact arithmetic, with its rounding, half away
  from zero, written out on its own.\<close>

definition round_half_away :: "rat \<Rightarrow> int" where
  "round_half_away x = (if 0 \<le> x then \<lfloor>x + 1 / 2\<rfloor> else - \<lfloor>- x + 1 / 2\<rfloor>)"

definition score_spec :: "int \<Rightarrow> int \<Rightarrow> int \<Rightarrow> int" where
  "score_spec l t m =
     round_half_away ((rat_of_int (l * l * 10) + rat_of_int (l * l * 10) * (15 / 100) * rat_of_int t)
                      * rat_of_int m)"

subsection \<open>Gravity collapse\<close>

text \<open>One step of the inner loop of \<open>collapseBoard\<close>, at row \<open>r\<close> of column \<open>c\<close>; the
  state is the board and the write pointer.\<close>

definition collapseStep :: "int \<Rightarrow> int \<Rightarrow> board \<times> int \<Rightarrow> board \<times> int" where
  "collapseStep c r st =
     (case st of (b, pointer) \<Rightarrow>
        if cellAt b r c \<noteq> None then
          ((if r \<noteq> pointer then setCell (setCell b pointer c (cellAt b r c)) r c None else b),
           pointer - 1)
        else (b, pointer))"

definition collapseColumn :: "int \<Rightarrow> board \<Rightarrow> board" where
  "collapseColumn c b = fst (fold (collapseStep c) (rev [0..ROWS - 1]) (b, ROWS - 1))"

definition collapseBoard :: "board \<Rightarrow> board" where
  "collapseBoard b = fold collapseColumn [0..COLS - 1] b"

subsection \<open>Random colours\<close>

type_synonym random = "nat \<Rightarrow> rat"

text \<open>\<open>COLOURS[Math.floor(u * COLOURS.length)]\<close> for a draw \<open>u\<close>. A draw of the unit
  interval always indexes the palette; the last branch is never taken for one. The
  product is taken exactly here. The script rounds it to binary64, which moves a draw
  that lies within one rounding error below a multiple of \<open>1/5\<close> to the next colour
  (the number \<open>0.6\<close> gives index 3 in the script); the index stays below 5 for every
  binary64 draw below 1. Which colour a draw gives does not matter below, only that it
  gives one.\<close>

definition randomColour :: "rat \<Rightarrow> cell" where
  "randomColour u =
     (let i = \<lfloor>u * rat_of_nat (length COLOURS)\<rfloor>
      in if 0 \<le> i \<and> i < int (length COLOURS) then Some (COLOURS ! nat i) else None)"

definition unit_draws :: "random \<Rightarrow> bool" where
  "unit_draws rnd \<longleftrightarrow> (\<forall>n. 0 \<le> rnd n \<and> rnd n < 1)"

definition allCells :: "tile list" where
  "allCells = concat (map (\<lambda>r. map (\<lambda>c. (r, c)) [0..COLS - 1]) [0..ROWS - 1])"

text \<open>\<open>initBoard\<close> builds a fresh array; the second component counts the draws.\<close>

definition initBoard :: "random \<Rightarrow> nat \<Rightarrow> board \<times> nat" where
  "initBoard rnd k =
     (map (\<lambda>r. map (\<lambda>c. randomColour (rnd (k + nat (r * COLS + c)))) [0..COLS - 1]) [0..ROWS - 1],
      k + nat (ROWS * COLS))"

definition fillStep :: "random \<Rightarrow> tile \<Rightarrow> board \<times> nat \<Rightarrow> board \<times> nat" where
  "fillStep rnd p st =
     (case p of (r, c) \<Rightarrow> case st of (b, k) \<Rightarrow>
        if cellAt b r c = None then (setCell b r c (randomColour (rnd k)), k + 1) else (b, k))"

definition fillBoard :: "random \<Rightarrow> board \<times> nat \<Rightarrow> board \<times> nat" where
  "fillBoard rnd st = fold (fillStep rnd) allCells st"

subsection \<open>Available moves: the flood fill\<close>

text \<open>The local matrix \<open>visited\<close> is only ever asked whether a position is marked, and
  only ever written with \<open>true\<close>: it is the set of marked positions.\<close>

definition dirs :: "(int \<times> int) list" where
  "dirs = [(1, 0), (- 1, 0), (0, 1), (0, - 1)]"

text \<open>The body of \<open>for (const [dr, dc] of dirs)\<close> for the cell \<open>(rr, cc)\<close> just taken
  from the queue.\<close>

definition visit :: "board \<Rightarrow> cell \<Rightarrow> int \<Rightarrow> int \<Rightarrow> int \<times> int \<Rightarrow> tile set \<times> tile list \<Rightarrow> tile set \<times> tile list" where
  "visit b colour rr cc d st =
     (case d of (dr, dc) \<Rightarrow> case st of (visited, queue) \<Rightarrow>
        let nr = rr + dr; nc = cc + dc in
        if nr < 0 \<or> nr \<ge> ROWS \<or> nc < 0 \<or> nc \<ge> COLS then (visited, queue)
        else if (nr, nc) \<in> visited then (visited, queue)
        else if cellAt b nr nc = colour then (insert (nr, nc) visited, queue @ [(nr, nc)])
        else (visited, queue))"

definition unvisited :: "tile set \<Rightarrow> tile set" where
  "unvisited visited = {p. in_bounds p \<and> p \<notin> visited}"

lemma in_bounds_set: "{p. in_bounds p} = {0..<ROWS} \<times> {0..<COLS}"
  by (auto simp: in_bounds_def)

lemma finite_in_bounds: "finite {p. in_bounds p}"
  unfolding in_bounds_set by simp

lemma finite_unvisited [simp]: "finite (unvisited V)"
proof -
  have "unvisited V \<subseteq> {p. in_bounds p}" by (auto simp: unvisited_def)
  then show ?thesis using finite_in_bounds by (rule finite_subset)
qed

lemma unvisited_insert:
  assumes "in_bounds p" "p \<notin> V"
  shows "card (unvisited (insert p V)) < card (unvisited V)"
proof -
  have "unvisited (insert p V) \<subset> unvisited V"
    using assms by (auto simp: unvisited_def)
  then show ?thesis by (simp add: psubset_card_mono)
qed

lemma visit_measure:
  "visit b colour rr cc d (V, Q) = (V', Q') \<Longrightarrow>
   2 * card (unvisited V') + length Q' \<le> 2 * card (unvisited V) + length Q"
  using unvisited_insert [of "(rr + fst d, cc + snd d)" V]
  by (auto simp: visit_def Let_def in_bounds_def split: prod.splits if_splits)

lemma fold_visit_measure:
  "fold (visit b colour rr cc) ds (V, Q) = (V', Q') \<Longrightarrow>
   2 * card (unvisited V') + length Q' \<le> 2 * card (unvisited V) + length Q"
proof (induction ds arbitrary: V Q)
  case Nil
  then show ?case by simp
next
  case (Cons d ds)
  obtain V1 Q1 where s: "visit b colour rr cc d (V, Q) = (V1, Q1)" by force
  with Cons.prems have "fold (visit b colour rr cc) ds (V1, Q1) = (V', Q')" by simp
  from Cons.IH [OF this] visit_measure [OF s] show ?case by linarith
qed

text \<open>The \<open>while (queue.length > 0)\<close> loop. Every push marks a cell that was not marked,
  so twice the number of unmarked cells plus the queue length goes down each round.\<close>

function bfs :: "board \<Rightarrow> cell \<Rightarrow> tile list \<Rightarrow> tile set \<Rightarrow> nat \<Rightarrow> tile set \<times> nat" where
  "bfs b colour [] visited count = (visited, count)"
| "bfs b colour ((rr, cc) # queue) visited count =
     (case fold (visit b colour rr cc) dirs (visited, queue) of
        (visited', queue') \<Rightarrow> bfs b colour queue' visited' (count + 1))"
  by pat_completeness auto
termination
  apply (relation "measure (\<lambda>(b, colour, queue, visited, count). 2 * card (unvisited visited) + length queue)")
   apply simp
  apply (drule sym)
  apply (drule fold_visit_measure)
  apply simp
  done

text \<open>The two outer \<open>for\<close> loops, over the cells in row-major order, with the early
  \<open>return true\<close>.\<close>

fun scan :: "board \<Rightarrow> tile list \<Rightarrow> tile set \<Rightarrow> bool" where
  "scan b [] visited = False"
| "scan b ((r, c) # rest) visited =
     (if (r, c) \<in> visited then scan b rest visited
      else case bfs b (cellAt b r c) [(r, c)] (insert (r, c) visited) 0 of
        (visited', count) \<Rightarrow> if count \<ge> 3 then True else scan b rest visited')"

definition hasAvailableMoves :: "board \<Rightarrow> bool" where
  "hasAvailableMoves b = scan b allCells {}"

subsection \<open>Reshuffle\<close>

definition regenStep :: "random \<Rightarrow> tile \<Rightarrow> board \<times> nat \<Rightarrow> board \<times> nat" where
  "regenStep rnd p st =
     (case p of (r, c) \<Rightarrow> case st of (b, k) \<Rightarrow> (setCell b r c (randomColour (rnd k)), k + 1))"

definition regenerate :: "random \<Rightarrow> board \<times> nat \<Rightarrow> board \<times> nat" where
  "regenerate rnd st = fold (regenStep rnd) allCells st"

text \<open>The \<open>do ... while\<close> loop of \<open>shuffleBoard\<close>. The result is the board, the number
  of draws, and the local counter \<open>attempts\<close>.\<close>

function shuffleLoop :: "random \<Rightarrow> board \<Rightarrow> nat \<Rightarrow> nat \<Rightarrow> board \<times> nat \<times> nat" where
  "shuffleLoop rnd b k attempts =
     (case regenerate rnd (b, k) of (b', k') \<Rightarrow>
        let attempts' = attempts + 1 in
        if attempts' > 50 then (b', k', attempts')
        else if \<not> hasAvailableMoves b' then shuffleLoop rnd b' k' attempts'
        else (b', k', attempts'))"
  by pat_completeness auto
termination
  by (relation "measure (\<lambda>(rnd, b, k, attempts). 51 - attempts)") auto

definition shuffleBoard :: "random \<Rightarrow> board \<times> nat \<Rightarrow> board \<times> nat \<times> nat" where
  "shuffleBoard rnd st = (case st of (b, k) \<Rightarrow> shuffleLoop rnd b k 0)"

subsection \<open>Game state\<close>

text \<open>The global variables of the script. \<open>lastDirection\<close> is the string
  \<open>dx,dy\<close> or \<open>null\<close>, here the pair or \<open>None\<close>. \<open>lastRow\<close> and \<open>lastCol\<close> are \<open>null\<close>
  until the first \<open>startSelection\<close> writes them, and are read only while a drag is
  active. The three timers are kept as state:
  \<open>timerRunning\<close> for the one-second interval, \<open>refillsPending\<close> for the 150 ms
  callbacks of \<open>finishSelection\<close> that have not run yet, \<open>chainTimeoutPending\<close> for
  the 2000 ms chain reset. \<open>draws\<close> counts the calls of \<open>Math.random\<close> that chose a
  colour.\<close>

record game =
  board :: board
  isDrawing :: bool
  selectedPath :: "tile list"
  currentColour :: cell
  lastRow :: int
  lastCol :: int
  lastDirection :: "(int \<times> int) option"
  turnCount :: int
  score :: int
  chainCount :: int
  maxChain :: int
  timeLeft :: int
  maxTimeForBar :: int
  bestScore :: int
  bestChainValue :: int
  timerRunning :: bool
  refillsPending :: nat
  chainTimeoutPending :: bool
  draws :: nat

subsection \<open>Selection\<close>

definition startSelection :: "tile \<Rightarrow> game \<Rightarrow> game" where
  "startSelection tile s =
     (if timeLeft s \<le> 0 then s
      else let r = fst tile; c = snd tile in
        s\<lparr>isDrawing := True, selectedPath := [tile], lastDirection := None, turnCount := 0,
          currentColour := cellAt (board s) r c, lastRow := r, lastCol := c\<rparr>)"

text \<open>\<open>Array.prototype.indexOf\<close>: the first index, or \<open>-1\<close>.\<close>

fun indexOf :: "'a list \<Rightarrow> 'a \<Rightarrow> int" where
  "indexOf [] x = - 1"
| "indexOf (y # ys) x = (if y = x then 0 else let i = indexOf ys x in if i < 0 then - 1 else i + 1)"

text \<open>The body of the loop of \<open>updateTurnCount\<close> at index \<open>i\<close>.\<close>

definition turnStep :: "tile list \<Rightarrow> nat \<Rightarrow> int \<times> (int \<times> int) option \<Rightarrow> int \<times> (int \<times> int) option" where
  "turnStep path i st =
     (case st of (tc, ld) \<Rightarrow>
        let prev = path ! (i - 1); curr = path ! i;
            dx = fst curr - fst prev; dy = snd curr - snd prev; dir = (dx, dy)
        in ((if ld \<noteq> None \<and> Some dir \<noteq> ld then tc + 1 else tc), Some dir))"

definition updateTurnCount :: "game \<Rightarrow> game" where
  "updateTurnCount s =
     (case fold (turnStep (selectedPath s)) [1..<length (selectedPath s)] (0, None) of
        (tc, ld) \<Rightarrow>
          let lastTile = selectedPath s ! (length (selectedPath s) - 1)
          in s\<lparr>turnCount := tc, lastDirection := ld, lastRow := fst lastTile, lastCol := snd lastTile\<rparr>)"

definition handleEnter :: "tile \<Rightarrow> game \<Rightarrow> game" where
  "handleEnter tile s =
     (if \<not> isDrawing s then s
      else let r = fst tile; c = snd tile; colour = cellAt (board s) r c in
        if colour \<noteq> currentColour s then s
        else let idx = indexOf (selectedPath s) tile in
          if idx \<ge> 0 then
            (if idx = int (length (selectedPath s)) - 2
             then updateTurnCount (s\<lparr>selectedPath := butlast (selectedPath s)\<rparr>)
             else s)
          else let dr = \<bar>r - lastRow s\<bar>; dc = \<bar>c - lastCol s\<bar> in
            if dr + dc \<noteq> 1 then s
            else let dx = r - lastRow s; dy = c - lastCol s; dir = (dx, dy) in
              s\<lparr>turnCount := (if lastDirection s \<noteq> None \<and> Some dir \<noteq> lastDirection s
                               then turnCount s + 1 else turnCount s),
                lastDirection := Some dir, lastRow := r, lastCol := c,
                selectedPath := selectedPath s @ [tile]\<rparr>)"

text \<open>The branch of \<open>finishSelection\<close> for a path of three or more, up to the
  \<open>setTimeout\<close> that defers collapse and refill.\<close>

definition clearTiles :: "tile list \<Rightarrow> board \<Rightarrow> board" where
  "clearTiles path b = fold (\<lambda>tile b. setCell b (fst tile) (snd tile) None) path b"

definition commitPath :: "game \<Rightarrow> game" where
  "commitPath s =
     (let pathLength = int (length (selectedPath s));
          gained = calculateScore pathLength (turnCount s) (chainCount s);
          s1 = s\<lparr>score := score s + gained\<rparr>;
          s2 = (if pathLength \<ge> 5
                then let t = timeLeft s1 + (pathLength - 4)
                     in s1\<lparr>timeLeft := t,
                           maxTimeForBar := (if t > maxTimeForBar s1 then t else maxTimeForBar s1)\<rparr>
                else s1);
          s3 = (if pathLength > maxChain s2 then s2\<lparr>maxChain := pathLength\<rparr> else s2);
          s4 = (if score s3 > bestScore s3 then s3\<lparr>bestScore := score s3\<rparr> else s3);
          s5 = (if maxChain s4 > bestChainValue s4 then s4\<lparr>bestChainValue := maxChain s4\<rparr> else s4)
      in s5\<lparr>board := clearTiles (selectedPath s5) (board s5),
            refillsPending := refillsPending s5 + 1\<rparr>)"

definition finishSelection :: "game \<Rightarrow> game" where
  "finishSelection s =
     (if \<not> isDrawing s then s
      else let s1 = s\<lparr>isDrawing := False\<rparr>;
               s2 = (if length (selectedPath s1) \<ge> 3 then commitPath s1 else s1)
           in s2\<lparr>selectedPath := [], currentColour := None, lastDirection := None, turnCount := 0\<rparr>)"

subsection \<open>Round controller\<close>

text \<open>The callback that \<open>finishSelection\<close> schedules after 150 ms.\<close>

definition refillTimeout :: "random \<Rightarrow> game \<Rightarrow> game" where
  "refillTimeout rnd s =
     (case fillBoard rnd (collapseBoard (board s), draws s) of (b, k) \<Rightarrow>
        case (if \<not> hasAvailableMoves b then (case shuffleBoard rnd (b, k) of (b', k', n) \<Rightarrow> (b', k'))
              else (b, k)) of (b', k') \<Rightarrow>
          s\<lparr>board := b', draws := k', chainCount := chainCount s + 1,
            chainTimeoutPending := True, refillsPending := refillsPending s - 1\<rparr>)"

definition chainTimeout :: "game \<Rightarrow> game" where
  "chainTimeout s = s\<lparr>chainCount := 1, chainTimeoutPending := False\<rparr>"

definition endGame :: "game \<Rightarrow> game" where
  "endGame s = s\<lparr>timerRunning := False\<rparr>"

text \<open>The callback of the one-second interval.\<close>

definition tick :: "game \<Rightarrow> game" where
  "tick s =
     (let t = timeLeft s - 1;
          s1 = s\<lparr>timeLeft := (if t < 0 then 0 else t)\<rparr>
      in if timeLeft s1 \<le> 0 then endGame s1 else s1)"

definition startGame :: "random \<Rightarrow> game \<Rightarrow> game" where
  "startGame rnd s =
     (let s1 = s\<lparr>score := 0, chainCount := 1, maxChain := 0, turnCount := 0,
                 timeLeft := 60, maxTimeForBar := 60, timerRunning := True\<rparr>
      in case initBoard rnd (draws s1) of (b, k) \<Rightarrow>
           case (if \<not> hasAvailableMoves b then (case shuffleBoard rnd (b, k) of (b', k', n) \<Rightarrow> (b', k'))
                 else (b, k)) of (b', k') \<Rightarrow>
             s1\<lparr>board := b', draws := k'\<rparr>)"

text \<open>The events the page delivers, one at a time: the two buttons, the pointer and
  touch listeners, and the three timers. A timer fires only while it is live. The
  listeners pass the element under the pointer, here its position.\<close>

datatype event =
  StartGame | Begin tile | Extend tile | End | Tick | RefillTimeout | ChainTimeout

definition deliver :: "random \<Rightarrow> event \<Rightarrow> game \<Rightarrow> game" where
  "deliver rnd e s =
     (case e of
        StartGame \<Rightarrow> startGame rnd s
      | Begin tile \<Rightarrow> startSelection tile s
      | Extend tile \<Rightarrow> handleEnter tile s
      | End \<Rightarrow> finishSelection s
      | Tick \<Rightarrow> (if timerRunning s then tick s else s)
      | RefillTimeout \<Rightarrow> (if refillsPending s > 0 then refillTimeout rnd s else s)
      | ChainTimeout \<Rightarrow> (if chainTimeoutPending s then chainTimeout s else s))"

definition run :: "random \<Rightarrow> event list \<Rightarrow> game \<Rightarrow> game" where
  "run rnd es s = fold (deliver rnd) es s"

section \<open>Specification-side notions\<close>

subsection \<open>Paths and turns\<close>

text \<open>Two positions are adjacent when their Manhattan distance is one; a path is
  contiguous when consecutive positions are adjacent.\<close>

definition adjacent :: "tile \<Rightarrow> tile \<Rightarrow> bool" where
  "adjacent p q \<longleftrightarrow> \<bar>fst p - fst q\<bar> + \<bar>snd p - snd q\<bar> = 1"

definition contiguous :: "tile list \<Rightarrow> bool" where
  "contiguous path \<longleftrightarrow> (\<forall>(p, q) \<in> set (zip path (tl path)). adjacent p q)"

text \<open>The turn count of the specification: the number of direction changes along
  the path, that is, of consecutive direction vectors that differ.\<close>

definition directions :: "tile list \<Rightarrow> (int \<times> int) list" where
  "directions path = map (\<lambda>(p, q). (fst q - fst p, snd q - snd p)) (zip path (tl path))"

definition countTurns :: "tile list \<Rightarrow> int" where
  "countTurns path =
     int (length (filter (\<lambda>(d, e). d \<noteq> e) (zip (directions path) (tl (directions path)))))"

definition lastDir :: "tile list \<Rightarrow> (int \<times> int) option" where
  "lastDir path = (if directions path = [] then None else Some (last (directions path)))"

subsection \<open>The Selecting state\<close>

text \<open>The selection path of the data model: non-empty while a drag is active, without
  repetitions, contiguous, ending at the position the script remembers in \<open>lastRow\<close>
  and \<open>lastCol\<close> (\<open>path_ok\<close>), with every cell of the path showing the active colour
  (\<open>colour_ok\<close>). The script keeps the first through a drag; it does not keep the
  second, because the deferred refill changes the board under a drag that began
  before it ran.\<close>

definition path_ok :: "game \<Rightarrow> bool" where
  "path_ok s \<longleftrightarrow> isDrawing s \<and> selectedPath s \<noteq> [] \<and> distinct (selectedPath s)
     \<and> contiguous (selectedPath s) \<and> (lastRow s, lastCol s) = last (selectedPath s)"

definition turns_ok :: "game \<Rightarrow> bool" where
  "turns_ok s \<longleftrightarrow> turnCount s = countTurns (selectedPath s) \<and> lastDirection s = lastDir (selectedPath s)"

definition colour_ok :: "game \<Rightarrow> bool" where
  "colour_ok s \<longleftrightarrow> (\<forall>p \<in> set (selectedPath s). cellAt (board s) (fst p) (snd p) = currentColour s)"

text \<open>The Selecting state: the states of a drag during which no round is started. A
  drag begins with a press, on any state whose clock has not expired (a press in the
  middle of a drag begins a new one); then the page delivers moves and timer
  callbacks, in any order. A release ends the drag. A round started in the middle of
  a drag replaces the elements of the page: what the script does with the old path
  afterwards is not the subject of the theorems on \<open>dragging\<close>.\<close>

fun drag_event :: "event \<Rightarrow> bool" where
  "drag_event (Extend t) = True"
| "drag_event Tick = True"
| "drag_event RefillTimeout = True"
| "drag_event ChainTimeout = True"
| "drag_event StartGame = False"
| "drag_event (Begin t) = False"
| "drag_event End = False"

inductive dragging :: "random \<Rightarrow> game \<Rightarrow> bool" for rnd where
  press: "0 < timeLeft s \<Longrightarrow> dragging rnd (startSelection t s)"
| step: "dragging rnd s \<Longrightarrow> drag_event e \<Longrightarrow> dragging rnd (deliver rnd e s)"

text \<open>What the timer callbacks leave alone: the selection variables.\<close>

definition same_selection :: "game \<Rightarrow> game \<Rightarrow> bool" where
  "same_selection s s' \<longleftrightarrow>
     isDrawing s' = isDrawing s \<and> selectedPath s' = selectedPath s \<and> currentColour s' = currentColour s
     \<and> lastRow s' = lastRow s \<and> lastCol s' = lastCol s \<and> lastDirection s' = lastDirection s
     \<and> turnCount s' = turnCount s"

subsection \<open>Columns\<close>

text \<open>A column read from top to bottom, and what gravity makes of it: its empty cells
  first, then its tiles in the order they had.\<close>

definition column :: "board \<Rightarrow> int \<Rightarrow> cell list" where
  "column b c = map (\<lambda>row. row ! nat c) b"

definition compacted :: "cell list \<Rightarrow> cell list" where
  "compacted xs = replicate (length (filter (\<lambda>x. x = None) xs)) None @ filter (\<lambda>x. x \<noteq> None) xs"

definition solid :: "cell list \<Rightarrow> cell list" where
  "solid xs = filter (\<lambda>x. x \<noteq> None) xs"

definition exampleHoles :: board where
  "exampleHoles =
     [[Some Red, None, Some Red, Some Blue, None, Some Green],
      [None, Some Red, Some Yellow, Some Green, None, Some Red],
      [Some Yellow, None, Some Purple, Some Red, None, Some Yellow],
      [None, Some Purple, Some Red, Some Blue, None, Some Green],
      [Some Purple, None, None, Some Yellow, None, Some Purple],
      [None, Some Blue, Some Yellow, Some Green, None, None]]"

subsection \<open>Connected components\<close>

text \<open>Two cells of the grid are linked when they are 4-directional neighbours and hold
  the same value (the same colour, or both nothing); the component of a cell is what
  the links reach from it. The specification's test: some component has three cells
  or more. \<open>tile_component3\<close> asks the same of a component of tiles only.\<close>

definition same_adjacent :: "board \<Rightarrow> (tile \<times> tile) set" where
  "same_adjacent b =
     {(p, q). in_bounds p \<and> in_bounds q \<and> adjacent p q
              \<and> cellAt b (fst p) (snd p) = cellAt b (fst q) (snd q)}"

definition component :: "board \<Rightarrow> tile \<Rightarrow> tile set" where
  "component b p = (same_adjacent b)\<^sup>* `` {p}"

definition has_component3 :: "board \<Rightarrow> bool" where
  "has_component3 b \<longleftrightarrow> (\<exists>p. in_bounds p \<and> 3 \<le> card (component b p))"

definition tile_component3 :: "board \<Rightarrow> bool" where
  "tile_component3 b \<longleftrightarrow>
     (\<exists>p. in_bounds p \<and> cellAt b (fst p) (snd p) \<noteq> None \<and> 3 \<le> card (component b p))"

text \<open>The boards the specification names: one colour everywhere, and a checkerboard of
  two colours. \<open>gapBoard\<close> is a checkerboard with three cells of its first row empty,
  \<open>pairBoard\<close> one with two. \<open>swapEmpty col\<close> exchanges the empty cell and the colour
  \<open>col\<close>.\<close>

definition uniformBoard :: "colour \<Rightarrow> board" where
  "uniformBoard col = replicate 6 (replicate 6 (Some col))"

definition checkerboard :: "colour \<Rightarrow> colour \<Rightarrow> board" where
  "checkerboard c1 c2 =
     map (\<lambda>r. map (\<lambda>c. if even (r + c) then Some c1 else Some c2) [0..COLS - 1]) [0..ROWS - 1]"

definition gapBoard :: board where
  "gapBoard =
     [[None, None, None, Some Yellow, Some Red, Some Yellow],
      [Some Yellow, Some Red, Some Yellow, Some Red, Some Yellow, Some Red],
      [Some Red, Some Yellow, Some Red, Some Yellow, Some Red, Some Yellow],
      [Some Yellow, Some Red, Some Yellow, Some Red, Some Yellow, Some Red],
      [Some Red, Some Yellow, Some Red, Some Yellow, Some Red, Some Yellow],
      [Some Yellow, Some Red, Some Yellow, Some Red, Some Yellow, Some Red]]"

definition pairBoard :: board where
  "pairBoard =
     [[None, None, Some Red, Some Yellow, Some Red, Some Yellow],
      [Some Yellow, Some Red, Some Yellow, Some Red, Some Yellow, Some Red],
      [Some Red, Some Yellow, Some Red, Some Yellow, Some Red, Some Yellow],
      [Some Yellow, Some Red, Some Yellow, Some Red, Some Yellow, Some Red],
      [Some Red, Some Yellow, Some Red, Some Yellow, Some Red, Some Yellow],
      [Some Yellow, Some Red, Some Yellow, Some Red, Some Yellow, Some Red]]"

definition swapEmpty :: "colour \<Rightarrow> cell \<Rightarrow> cell" where
  "swapEmpty col x = (if x = None then Some col else if x = Some col then None else x)"

subsection \<open>The flood fill, step by step\<close>

text \<open>The cells that one round of the \<open>for\<close> loop over \<open>dirs\<close> marks and queues, in
  order: the neighbours in bounds, not yet marked, of the colour looked for.\<close>

definition fresh :: "board \<Rightarrow> cell \<Rightarrow> tile set \<Rightarrow> int \<Rightarrow> int \<Rightarrow> (int \<times> int) list \<Rightarrow> tile list" where
  "fresh b colour V rr cc ds =
     filter (\<lambda>n. in_bounds n \<and> n \<notin> V \<and> cellAt b (fst n) (snd n) = colour)
       (map (\<lambda>d. (rr + fst d, cc + snd d)) ds)"

text \<open>The invariant of the \<open>while\<close> loop, for a fill started at \<open>s\<close> when \<open>V0\<close> was
  marked: what has been marked since lies in the component of \<open>s\<close>; the queue holds
  marked cells of this fill, each once; \<open>count\<close> is the number of cells of this fill
  already taken from the queue; and every link from such a cell leads to a marked
  cell.\<close>

definition bfs_inv :: "board \<Rightarrow> tile \<Rightarrow> tile set \<Rightarrow> tile list \<Rightarrow> tile set \<Rightarrow> nat \<Rightarrow> bool" where
  "bfs_inv b s V0 Q V cnt \<longleftrightarrow>
     V0 \<subseteq> V \<and> V - V0 \<subseteq> component b s \<and> s \<in> V \<and> set Q \<subseteq> V - V0 \<and> distinct Q
     \<and> cnt + length Q = card (V - V0)
     \<and> (\<forall>p \<in> (V - V0) - set Q. \<forall>q. (p, q) \<in> same_adjacent b \<longrightarrow> q \<in> V)"

subsection \<open>Example states\<close>

definition exampleBoard :: board where
  "exampleBoard =
     [[Some Red, Some Red, Some Red, Some Blue, Some Yellow, Some Green],
      [Some Blue, Some Red, Some Yellow, Some Green, Some Purple, Some Red],
      [Some Yellow, Some Green, Some Purple, Some Red, Some Blue, Some Yellow],
      [Some Green, Some Purple, Some Red, Some Blue, Some Yellow, Some Green],
      [Some Purple, Some Red, Some Blue, Some Yellow, Some Green, Some Purple],
      [Some Red, Some Blue, Some Yellow, Some Green, Some Purple, Some Red]]"

definition exampleRound :: game where
  "exampleRound =
     \<lparr>board = exampleBoard, isDrawing = False, selectedPath = [], currentColour = None,
      lastRow = 0, lastCol = 0, lastDirection = None, turnCount = 0, score = 0, chainCount = 1,
      maxChain = 0, timeLeft = 60, maxTimeForBar = 60, bestScore = 0, bestChainValue = 0,
      timerRunning = True, refillsPending = 0, chainTimeoutPending = False, draws = 0\<rparr>"

definition exampleDrag :: game where
  "exampleDrag = handleEnter (1, 1) (handleEnter (0, 1) (startSelection (0, 0) exampleRound))"

definition exampleShort :: game where
  "exampleShort = handleEnter (0, 1) (startSelection (0, 0) exampleRound)"

definition noRandom :: random where
  "noRandom = (\<lambda>n. 0)"

definition exampleExpired :: game where
  "exampleExpired = run noRandom ([Begin (0, 0), Extend (0, 1), Extend (1, 1)] @ replicate 60 Tick) exampleRound"

text \<open>A round restarted while the drag of \<open>exampleExpired\<close> is still held (the replay
  button of the result overlay), and the next move of that drag.\<close>

definition exampleRestarted :: game where
  "exampleRestarted = run noRandom [StartGame, Extend (1, 2)] exampleExpired"




text \<open>A random source that draws a red and yellow checkerboard, board after board,
  and that checkerboard.\<close>

definition checkerRandom :: random where
  "checkerRandom n = (if even (n + n div 6) then 0 else 1 / 2)"

definition checkerBoard :: board where
  "checkerBoard =
     [[Some Red, Some Yellow, Some Red, Some Yellow, Some Red, Some Yellow],
      [Some Yellow, Some Red, Some Yellow, Some Red, Some Yellow, Some Red],
      [Some Red, Some Yellow, Some Red, Some Yellow, Some Red, Some Yellow],
      [Some Yellow, Some Red, Some Yellow, Some Red, Some Yellow, Some Red],
      [Some Red, Some Yellow, Some Red, Some Yellow, Some Red, Some Yellow],
      [Some Yellow, Some Red, Some Yellow, Some Red, Some Yellow, Some Red]]"

section \<open>Scoring theorems\<close>

subsection \<open>Rounding to binary64\<close>

lemma ilog2_ge1:
  assumes "1 \<le> x"
  shows "0 \<le> ilog2 x" "2 ^ nat (ilog2 x) \<le> x" "x < 2 ^ (nat (ilog2 x) + 1)"
proof -
  let ?n = "\<lfloor>x\<rfloor>"
  from assms have n: "1 \<le> ?n" by simp
  then have b: "2 ^ nat (bitlen ?n - 1) \<le> ?n" "?n < 2 ^ nat (bitlen ?n)"
    using bitlen_bounds [of ?n] by simp_all
  from n b(2) have "1 < (2::int) ^ nat (bitlen ?n)" by linarith
  then have "0 < nat (bitlen ?n)" by (cases "nat (bitlen ?n)") simp_all
  then have p: "1 \<le> bitlen ?n" by linarith
  have e: "ilog2 x = bitlen ?n - 1" using assms by (simp add: ilog2_def)
  show "0 \<le> ilog2 x" using p e by simp
  have "rat_of_int (2 ^ nat (bitlen ?n - 1)) \<le> rat_of_int ?n" using b(1) by (simp only: of_int_le_iff)
  also have "\<dots> \<le> x" by simp
  finally show "2 ^ nat (ilog2 x) \<le> x" by (simp add: e)
  have s: "nat (ilog2 x) + 1 = nat (bitlen ?n)" using p e by simp
  from b(2) have "?n + 1 \<le> 2 ^ nat (bitlen ?n)" by simp
  then have "rat_of_int (?n + 1) \<le> rat_of_int (2 ^ nat (bitlen ?n))" by (simp only: of_int_le_iff)
  moreover have "x < rat_of_int (?n + 1)" by linarith
  ultimately show "x < 2 ^ (nat (ilog2 x) + 1)" unfolding s by simp
qed

lemma round_ties_even_near:
  assumes "\<bar>q - rat_of_int N\<bar> < 1 / 2"
  shows "round_ties_even q = N"
proof (cases "rat_of_int N \<le> q")
  case True
  with assms have "\<lfloor>q\<rfloor> = N" by (intro floor_unique) (simp_all add: abs_less_iff)
  with assms True show ?thesis by (simp add: round_ties_even_def Let_def abs_less_iff)
next
  case False
  with assms have f: "\<lfloor>q\<rfloor> = N - 1" by (intro floor_unique) (simp_all add: abs_less_iff)
  from assms False have "1 / 2 < q - rat_of_int (N - 1)" by (simp add: abs_less_iff)
  with f show ?thesis by (simp add: round_ties_even_def Let_def)
qed

lemma exponent_le:
  assumes "1 \<le> x" "x < 2 ^ n"
  shows "nat (ilog2 x) < n"
proof -
  from ilog2_ge1(2) [OF assms(1)] assms(2) have "(2::rat) ^ nat (ilog2 x) < 2 ^ n" by linarith
  then show ?thesis by simp
qed

text \<open>A number between 1 and \<open>2^53\<close> is rounded on the grid of step \<open>1 / 2^k\<close>, where
  \<open>k\<close> is 52 less its binary exponent.\<close>

lemma binary64_near:
  assumes "1 \<le> x" "x < 2 ^ 53" "k = 52 - nat (ilog2 x)" "\<bar>x * 2 ^ k - rat_of_int N\<bar> < 1 / 2"
  shows "binary64 x = rat_of_int N / 2 ^ k"
proof -
  note l = ilog2_ge1 [OF assms(1)]
  from exponent_le [OF assms(1,2)] have le: "nat (ilog2 x) < 53" .
  then have e: "ilog2 x - 52 = - int k" using l(1) assms(3) by linarith
  from l(1) have m: "max (ilog2 x) (- 1022) = ilog2 x" by simp
  have u: "(2::rat) powi (ilog2 x - 52) = 1 / 2 ^ k"
    unfolding e by (simp add: power_int_minus_divide)
  from assms(1) have a: "\<bar>x\<bar> = x" "x \<noteq> 0" by simp_all
  have "binary64 x = rat_of_int (round_ties_even (x * 2 ^ k)) / 2 ^ k"
    using a by (simp add: binary64_def Let_def m u)
  with round_ties_even_near [OF assms(4)] show ?thesis by simp
qed

text \<open>Integers and halves of integers below \<open>2^52\<close> are binary64 numbers.\<close>

lemma binary64_half:
  assumes "0 \<le> n" "n < 2 ^ 53"
  shows "binary64 (rat_of_int n / 2) = rat_of_int n / 2"
proof (cases "n < 2")
  case True
  with assms have "n = 0 \<or> n = 1" by linarith
  then show ?thesis
  proof
    assume "n = 0" then show ?thesis by (simp add: binary64_def)
  next
    assume n: "n = 1"
    have "binary64 (1 / 2) = 1 / 2" by code_simp
    with n show ?thesis by simp
  qed
next
  case False
  let ?x = "rat_of_int n / 2"
  define k where "k = 52 - nat (ilog2 ?x)"
  from False have x1: "1 \<le> ?x" by simp
  from assms(2) have "rat_of_int n < rat_of_int (2 ^ 53)" by (simp only: of_int_less_iff)
  then have x2: "?x < 2 ^ 52" by simp
  from exponent_le [OF x1 x2] have "1 \<le> k" by (simp add: k_def)
  then obtain j where j: "k = Suc j" by (cases k) simp_all
  have eq: "?x * 2 ^ k = rat_of_int (n * 2 ^ j)" by (simp add: j)
  have "\<bar>?x * 2 ^ k - rat_of_int (n * 2 ^ j)\<bar> < 1 / 2" unfolding eq by simp
  from binary64_near [OF x1 _ k_def this] x2
  have "binary64 ?x = rat_of_int (n * 2 ^ j) / 2 ^ k" by simp
  then show ?thesis by (simp add: j)
qed

lemma binary64_int:
  assumes "0 \<le> n" "n < 2 ^ 52"
  shows "binary64 (rat_of_int n) = rat_of_int n"
proof -
  from assms have "0 \<le> 2 * n" "2 * n < 2 ^ 53" by simp_all
  from binary64_half [OF this] show ?thesis by simp
qed

text \<open>The number that the literal \<open>0.15\<close> denotes, and a multiple of ten times it.\<close>

lemma binary64_015: "binary64 (15 / 100) = 5404319552844595 / 2 ^ 55"
  by code_simp

lemma binary64_times_015:
  assumes "1 \<le> L" "3 * L < 2 ^ 53"
  shows "binary64 (rat_of_int (10 * L) * (5404319552844595 / 2 ^ 55)) = rat_of_int (3 * L) / 2"
proof -
  define y where "y = rat_of_int (10 * L) * (5404319552844595 / 2 ^ 55)"
  define k where "k = 52 - nat (ilog2 y)"
  have y: "y = rat_of_int (3 * L) / 2 - rat_of_int L / 2 ^ 54"
    by (simp add: y_def field_simps)
  have L1: "1 \<le> rat_of_int L" using assms(1) by simp
  have Ly: "rat_of_int L < y"
  proof -
    have "y - rat_of_int L = rat_of_int L * (1 / 2 - 1 / 2 ^ 54)" unfolding y by (simp add: field_simps)
    moreover have "0 < rat_of_int L * (1 / 2 - 1 / 2 ^ 54)" using L1 by simp
    ultimately show ?thesis by simp
  qed
  with L1 have y1: "1 \<le> y" by simp
  from assms(2) have "rat_of_int (3 * L) < rat_of_int (2 ^ 53)" by (simp only: of_int_less_iff)
  then have "rat_of_int (3 * L) / 2 < 2 ^ 52" by simp
  moreover have "y < rat_of_int (3 * L) / 2" unfolding y using L1 by simp
  ultimately have y2: "y < 2 ^ 52" by simp
  from exponent_le [OF y1 y2] have e: "nat (ilog2 y) < 52" .
  then have "1 \<le> k" by (simp add: k_def)
  then obtain j where j: "k = Suc j" by (cases k) simp_all
  have kk: "k + (nat (ilog2 y) + 1) = 53" using e by (simp add: k_def)
  from Ly ilog2_ge1(3) [OF y1] have "rat_of_int L < 2 ^ (nat (ilog2 y) + 1)" by simp
  then have "rat_of_int L * 2 ^ k < 2 ^ (nat (ilog2 y) + 1) * 2 ^ k" by simp
  also have "\<dots> = 2 ^ 53" using kk by (simp add: power_add [symmetric] add.commute del: power_Suc)
  finally have Lk: "rat_of_int L * 2 ^ k < 2 ^ 53" .
  have d: "y * 2 ^ k - rat_of_int (3 * L * 2 ^ j) = - (rat_of_int L * 2 ^ k / 2 ^ 54)"
    unfolding y j by (simp add: field_simps)
  have "\<bar>y * 2 ^ k - rat_of_int (3 * L * 2 ^ j)\<bar> = rat_of_int L * 2 ^ k / 2 ^ 54"
    unfolding d using L1 by simp
  also have "\<dots> < 2 ^ 53 / 2 ^ 54" using Lk by (simp add: divide_strict_right_mono)
  finally have "\<bar>y * 2 ^ k - rat_of_int (3 * L * 2 ^ j)\<bar> < 1 / 2" by simp
  from binary64_near [OF y1 _ k_def this] y2
  have "binary64 y = rat_of_int (3 * L * 2 ^ j) / 2 ^ k" by simp
  then show ?thesis unfolding y_def by (simp add: j)
qed

text \<open>Below 1 the exponent is negative.\<close>

lemma ilog2_lt1:
  assumes "0 < x" "x < 1"
  shows "ilog2 x < 0" "1 / 2 ^ nat (- ilog2 x) \<le> x" "x < 2 / 2 ^ nat (- ilog2 x)"
proof -
  let ?c = "\<lceil>1 / x\<rceil>"
  let ?j = "bitlen (?c - 1)"
  from assms have i: "1 < 1 / x" by simp
  then have c: "2 \<le> ?c" by linarith
  then have b: "2 ^ nat (?j - 1) \<le> ?c - 1" "?c - 1 < 2 ^ nat ?j"
    using bitlen_bounds [of "?c - 1"] by simp_all
  from c b(2) have "1 < (2::int) ^ nat ?j" by linarith
  then have "0 < nat ?j" by (cases "nat ?j") simp_all
  then have p: "1 \<le> ?j" by linarith
  have e: "ilog2 x = - ?j" using assms by (simp add: ilog2_def)
  show "ilog2 x < 0" using p e by simp
  have n: "nat (- ilog2 x) = nat ?j" by (simp add: e)
  from b(2) have cj: "?c \<le> 2 ^ nat ?j" by simp
  have "1 / x \<le> rat_of_int ?c" by (rule le_of_int_ceiling)
  also have "\<dots> \<le> rat_of_int (2 ^ nat ?j)" using cj by (simp only: of_int_le_iff)
  also have "\<dots> = 2 ^ nat ?j" by simp
  finally have u: "1 / x \<le> 2 ^ nat ?j" .
  show "1 / 2 ^ nat (- ilog2 x) \<le> x"
    unfolding n using u assms(1) by (simp add: field_simps)
  obtain k where k: "nat ?j = Suc k" using \<open>0 < nat ?j\<close> by (cases "nat ?j") simp_all
  then have k': "nat (?j - 1) = k" by linarith
  have "(2::rat) ^ k = rat_of_int (2 ^ k)" by simp
  also have "\<dots> \<le> rat_of_int (?c - 1)" using b(1) unfolding k' by (simp only: of_int_le_iff)
  also have "\<dots> < 1 / x" by linarith
  finally have l: "2 ^ k < 1 / x" .
  from l assms(1) have "x < 1 / 2 ^ k" by (simp add: field_simps)
  then show "x < 2 / 2 ^ nat (- ilog2 x)" unfolding n k by simp
qed

text \<open>\<open>ilog2\<close> is the binary exponent of every positive number.\<close>

lemma ilog2_bounds:
  assumes "0 < x"
  shows "2 powi ilog2 x \<le> x \<and> x < 2 powi (ilog2 x + 1)"
proof (cases "1 \<le> x")
  case True
  note l = ilog2_ge1 [OF True]
  from l(1) have "(2::rat) powi ilog2 x = 2 ^ nat (ilog2 x)"
    "(2::rat) powi (ilog2 x + 1) = 2 ^ (nat (ilog2 x) + 1)"
    by (simp_all add: power_int_def nat_add_distrib)
  with l show ?thesis by simp
next
  case False
  with assms have "x < 1" by simp
  note l = ilog2_lt1 [OF assms this]
  from l(1) have "ilog2 x = - int (Suc (nat (- ilog2 x - 1)))" by simp
  then obtain j where j: "ilog2 x = - int (Suc j)" ..
  have n: "nat (- ilog2 x) = Suc j" by (simp add: j)
  have "ilog2 x + 1 = - int j" by (simp add: j)
  then have "(2::rat) powi (ilog2 x + 1) = 1 / 2 ^ j"
    by (simp only: power_int_minus_divide power_int_of_nat)
  moreover have "(2::rat) powi ilog2 x = 1 / 2 ^ Suc j"
    unfolding j by (simp only: power_int_minus_divide power_int_of_nat)
  ultimately show ?thesis using l unfolding n by simp
qed

lemma round_ties_even_nearest: "\<bar>rat_of_int (round_ties_even q) - q\<bar> \<le> 1 / 2"
proof -
  have "rat_of_int \<lfloor>q\<rfloor> \<le> q" "q < rat_of_int \<lfloor>q\<rfloor> + 1" by linarith+
  then show ?thesis by (auto simp: round_ties_even_def Let_def abs_le_iff)
qed

text \<open>\<open>binary64 x\<close> is a multiple of the unit in the last place of \<open>x\<close>, with a
  significand of 53 bits, and no further from \<open>x\<close> than half that unit.\<close>

lemma binary64_nearest:
  assumes "x \<noteq> 0"
  defines "u \<equiv> 2 powi (max (ilog2 \<bar>x\<bar>) (- 1022) - 52)"
  shows "binary64 x = rat_of_int (round_ties_even (x / u)) * u"
    and "\<bar>round_ties_even (x / u)\<bar> \<le> 2 ^ 53"
    and "\<bar>binary64 x - x\<bar> \<le> u / 2"
proof -
  have u0: "0 < u" by (simp add: u_def)
  show b: "binary64 x = rat_of_int (round_ties_even (x / u)) * u"
    using assms(1) by (simp add: binary64_def Let_def u_def)
  from round_ties_even_nearest [of "x / u"]
  have "\<bar>rat_of_int (round_ties_even (x / u)) - x / u\<bar> * u \<le> 1 / 2 * u"
    using u0 by (intro mult_right_mono) simp_all
  moreover have "\<bar>rat_of_int (round_ties_even (x / u)) - x / u\<bar> * u
      = \<bar>rat_of_int (round_ties_even (x / u)) * u - x\<bar>"
  proof -
    have "rat_of_int (round_ties_even (x / u)) * u - x
        = (rat_of_int (round_ties_even (x / u)) - x / u) * u"
      using u0 by (simp add: left_diff_distrib)
    then show ?thesis using u0 by (simp add: abs_mult)
  qed
  ultimately show "\<bar>binary64 x - x\<bar> \<le> u / 2" unfolding b by simp
  from assms(1) have ax: "0 < \<bar>x\<bar>" by simp
  from ilog2_bounds [OF ax] have "\<bar>x\<bar> < 2 powi (ilog2 \<bar>x\<bar> + 1)" by simp
  also have "\<dots> \<le> 2 powi (max (ilog2 \<bar>x\<bar>) (- 1022) + 1)"
    by (intro power_int_increasing) simp_all
  also have "\<dots> = 2 ^ 53 * u"
    unfolding u_def by (simp add: power_int_add power_int_diff)
  finally have "\<bar>x\<bar> / u < 2 ^ 53" using u0 by (simp add: pos_divide_less_eq)
  then have q: "\<bar>x / u\<bar> < 2 ^ 53" using u0 by simp
  have "\<bar>rat_of_int (round_ties_even (x / u))\<bar> \<le> \<bar>x / u\<bar> + 1 / 2"
    using round_ties_even_nearest [of "x / u"] by linarith
  with q have "\<bar>rat_of_int (round_ties_even (x / u))\<bar> < rat_of_int (2 ^ 53 + 1)" by simp
  then have "rat_of_int \<bar>round_ties_even (x / u)\<bar> < rat_of_int (2 ^ 53 + 1)" by simp
  then have "\<bar>round_ties_even (x / u)\<bar> < 2 ^ 53 + 1" by (simp only: of_int_less_iff)
  then show "\<bar>round_ties_even (x / u)\<bar> \<le> 2 ^ 53" by simp
qed

text \<open>Some well-known values: \<open>0.1\<close>; \<open>0.1 + 0.2\<close>, which is not \<open>0.3\<close>; \<open>0.6 * 5\<close>,
  which is 3; and two odd integers above \<open>2^53\<close>, one tie going down and one going up to
  the even significand.\<close>

lemma binary64_known_values:
  "binary64 (1 / 10) = 3602879701896397 / 2 ^ 55"
  "binary64 (binary64 (1 / 10) + binary64 (2 / 10)) = 5404319552844596 / 2 ^ 54"
  "binary64 (binary64 (1 / 10) + binary64 (2 / 10)) \<noteq> binary64 (3 / 10)"
  "binary64 (binary64 (6 / 10) * 5) = 3"
  "binary64 (2 ^ 53 + 1) = 2 ^ 53"
  "binary64 (2 ^ 53 + 3) = 2 ^ 53 + 4"
  by code_simp+

subsection \<open>The score\<close>

text \<open>As long as \<open>length\<^sup>2 * (20 + 3 * turns) * multiplier\<close> stays below \<open>2^53\<close>, every
  intermediate value is an integer or half an integer that binary64 holds, and the one
  inexact product, \<open>base * 0.15\<close>, rounds to \<open>3/2 * length\<^sup>2\<close>.\<close>

lemma calculateScore_closed_form:
  assumes "0 \<le> l" "0 \<le> t" "0 \<le> m" "l * l * (20 + 3 * t) * max 1 m < 2 ^ 53"
  shows "calculateScore l t m = (l * l * m * (20 + 3 * t) + 1) div 2"
proof (cases "l = 0")
  case True
  have "binary64 0 = 0" by (simp add: binary64_def)
  moreover have "js_round 0 = 0" unfolding js_round_def by (rule floor_unique) simp_all
  ultimately have "calculateScore 0 t m = 0" by (simp add: calculateScore_def Let_def)
  with True show ?thesis by simp
next
  case False
  define L where "L = l * l"
  define A where "A = L * (20 + 3 * t)"
  from False assms(1) have "1 \<le> l" by simp
  then have "1 * 1 \<le> l * l" by (intro mult_mono) simp_all
  then have L1: "1 \<le> L" by (simp add: L_def)
  have LA: "20 * L \<le> A" "3 * L * t \<le> A" "0 \<le> A"
    using L1 assms(2) by (simp_all add: A_def algebra_simps)
  have "A * 1 \<le> A * max 1 m" using LA(3) by (intro mult_left_mono) simp_all
  moreover have "A * m \<le> A * max 1 m" using LA(3) by (intro mult_left_mono) simp_all
  moreover have "A * max 1 m < 2 ^ 53" using assms(4) by (simp add: A_def L_def)
  ultimately have A53: "A < 2 ^ 53" and Am53: "A * m < 2 ^ 53" by simp_all
  have Am0: "0 \<le> A * m" using LA(3) assms(3) by simp
  have Lt0: "0 \<le> 3 * L * t" using L1 assms(2) by simp
  have b1: "binary64 (rat_of_int l * rat_of_int l) = rat_of_int L"
    using binary64_int [of L] L1 LA(1) A53 by (simp add: L_def)
  have b2: "binary64 (rat_of_int L * 10) = rat_of_int (10 * L)"
    using binary64_int [of "10 * L"] L1 LA(1) A53 by (simp add: mult.commute)
  have b3: "binary64 (rat_of_int (10 * L) * (5404319552844595 / 2 ^ 55)) = rat_of_int (3 * L) / 2"
    using L1 LA(1) A53 by (intro binary64_times_015) simp_all
  have b4: "binary64 (rat_of_int (3 * L) / 2 * rat_of_int t) = rat_of_int (3 * L * t) / 2"
    using binary64_half [of "3 * L * t"] Lt0 LA(2) A53 by simp
  have e5: "rat_of_int (10 * L) + rat_of_int (3 * L * t) / 2 = rat_of_int A / 2"
    by (simp add: A_def algebra_simps)
  have b5: "binary64 (rat_of_int (10 * L) + rat_of_int (3 * L * t) / 2) = rat_of_int A / 2"
    unfolding e5 using LA(3) A53 by (rule binary64_half)
  have b6: "binary64 (rat_of_int A / 2 * rat_of_int m) = rat_of_int (A * m) / 2"
    using binary64_half [of "A * m"] Am0 Am53 by simp
  have "calculateScore l t m = js_round (rat_of_int (A * m) / 2)"
    unfolding calculateScore_def Let_def b1 b2 binary64_015 b3 b4 b5 b6 ..
  also have "\<dots> = \<lfloor>rat_of_int (A * m + 1) / rat_of_int 2\<rfloor>"
    by (simp add: js_round_def add_divide_distrib)
  also have "\<dots> = (A * m + 1) div 2"
    by (rule floor_divide_of_int_eq)
  finally show ?thesis by (simp add: A_def L_def algebra_simps)
qed

lemma score_spec_closed_form:
  assumes "0 \<le> l" "0 \<le> t" "0 \<le> m"
  shows "score_spec l t m = (l * l * m * (20 + 3 * t) + 1) div 2"
proof -
  define x where
    "x = (rat_of_int (l * l * 10) + rat_of_int (l * l * 10) * (15 / 100) * rat_of_int t) * rat_of_int m"
  have "0 \<le> x" unfolding x_def using assms by simp
  then have "score_spec l t m = \<lfloor>x + 1 / 2\<rfloor>"
    unfolding x_def score_spec_def round_half_away_def by simp
  moreover have "x + 1 / 2 = rat_of_int (l * l * m * (20 + 3 * t) + 1) / rat_of_int 2"
    unfolding x_def by (simp add: field_simps)
  ultimately have "score_spec l t m = \<lfloor>rat_of_int (l * l * m * (20 + 3 * t) + 1) / rat_of_int 2\<rfloor>"
    by (simp only:)
  also have "\<dots> = (l * l * m * (20 + 3 * t) + 1) div 2"
    by (rule floor_divide_of_int_eq)
  finally show ?thesis .
qed

text \<open>
  Claim C1, as stated, is for all non-negative integers. It does not hold: the script
  computes in binary64. \<open>94906267\<^sup>2\<close> is above \<open>2^53\<close> and is rounded before it is
  multiplied by ten; \<open>11.5 * 600479950316067\<close> lies halfway between two binary64
  numbers and goes to the even one before \<open>Math.round\<close> sees it.
\<close>

theorem calculateScore_binary64_counterexample:
  "calculateScore 94906267 0 1 = 90071995158752880
   \<and> score_spec 94906267 0 1 = 90071995158752890
   \<and> calculateScore 1 1 600479950316067 = 6905519428634770
   \<and> score_spec 1 1 600479950316067 = 6905519428634771"
  by code_simp

text \<open>
  Claim C1, amended. For non-negative integers \<open>length\<close>, \<open>turns\<close> and \<open>multiplier\<close>
  with \<open>length\<^sup>2 * (20 + 3 * turns) * max(1, multiplier) < 2^53\<close>, \<open>calculateScore\<close>
  returns the specification's
  \<open>round((length * length * 10 + length * length * 10 * 0.15 * turns) * multiplier)\<close>;
  it is a function of its three arguments alone (it neither takes nor returns the game
  state); and \<open>calculateScore(3,0,1) = 90\<close>, \<open>calculateScore(5,0,1) = 250\<close>,
  \<open>calculateScore(5,2,1) = 325\<close>, \<open>calculateScore(5,0,2) = 500\<close>. The bound holds for
  every path of the board (\<open>length \<le> 36\<close>, \<open>turns < 36\<close>) with a multiplier up to
  fifty thousand million.
\<close>

theorem calculateScore_spec_bounded:
  "(0 \<le> l \<and> 0 \<le> t \<and> 0 \<le> m \<and> l * l * (20 + 3 * t) * max 1 m < 2 ^ 53
      \<longrightarrow> calculateScore l t m = score_spec l t m)
   \<and> calculateScore 3 0 1 = 90
   \<and> calculateScore 5 0 1 = 250
   \<and> calculateScore 5 2 1 = 325
   \<and> calculateScore 5 0 2 = 500"
proof -
  have "calculateScore l t m = score_spec l t m"
    if "0 \<le> l \<and> 0 \<le> t \<and> 0 \<le> m \<and> l * l * (20 + 3 * t) * max 1 m < 2 ^ 53"
    using that by (simp add: calculateScore_closed_form score_spec_closed_form)
  moreover have "calculateScore 3 0 1 = 90" "calculateScore 5 0 1 = 250"
    "calculateScore 5 2 1 = 325" "calculateScore 5 0 2 = 500"
    by (simp_all add: calculateScore_closed_form)
  ultimately show ?thesis by blast
qed

theorem calculateScore_spec_bounded_witness:
  "(0::int) \<le> 36 \<and> (0::int) \<le> 34 \<and> (0::int) \<le> 50000000000
   \<and> (36::int) * 36 * (20 + 3 * 34) * max 1 50000000000 < 2 ^ 53
   \<and> calculateScore 36 34 50000000000 = score_spec 36 34 50000000000
   \<and> calculateScore 36 34 50000000000 = 3952800000000000
   \<and> calculateScore 4 3 2 = score_spec 4 3 2 \<and> calculateScore 4 3 2 = 464"
proof -
  have a: "(36::int) * 36 * (20 + 3 * 34) * max 1 50000000000 < 2 ^ 53"
    "(4::int) * 4 * (20 + 3 * 3) * max 1 2 < 2 ^ 53"
    by simp_all
  have v: "calculateScore 36 34 50000000000 = 3952800000000000" "calculateScore 4 3 2 = 464"
    by code_simp+
  from calculateScore_spec_bounded [of 36 34 50000000000] calculateScore_spec_bounded [of 4 3 2] a v
  show ?thesis by simp
qed

section \<open>Selection theorems\<close>

subsection \<open>Turn counting\<close>

lemma zip_tl_snoc:
  "xs \<noteq> [] \<Longrightarrow> zip (xs @ [x]) (tl xs @ [x]) = zip xs (tl xs) @ [(last xs, x)]"
proof (induction xs)
  case Nil
  then show ?case by simp
next
  case (Cons a xs)
  show ?case
  proof (cases xs)
    case Nil
    then show ?thesis by simp
  next
    case (Cons b ys)
    with Cons.IH show ?thesis by simp
  qed
qed

lemma directions_single [simp]: "directions [x] = []" "directions [] = []"
  by (simp_all add: directions_def)

lemma directions_snoc:
  "xs \<noteq> [] \<Longrightarrow> directions (xs @ [x]) = directions xs @ [(fst x - fst (last xs), snd x - snd (last xs))]"
  by (simp add: directions_def zip_tl_snoc)

lemma length_directions [simp]: "length (directions xs) = length xs - 1"
  by (simp add: directions_def)

lemma countTurns_snoc:
  assumes "xs \<noteq> []"
  shows "countTurns (xs @ [x]) =
         (let dir = (fst x - fst (last xs), snd x - snd (last xs))
          in if lastDir xs \<noteq> None \<and> Some dir \<noteq> lastDir xs then countTurns xs + 1 else countTurns xs)"
proof (cases "directions xs = []")
  case True
  then show ?thesis using assms
    by (simp add: countTurns_def lastDir_def directions_snoc Let_def)
next
  case False
  then show ?thesis using assms
    by (auto simp add: countTurns_def lastDir_def directions_snoc Let_def zip_tl_snoc)
qed

lemma lastDir_snoc:
  "xs \<noteq> [] \<Longrightarrow> lastDir (xs @ [x]) = Some (fst x - fst (last xs), snd x - snd (last xs))"
  by (simp add: lastDir_def directions_snoc)

lemma turnStep_cong:
  "0 < i \<Longrightarrow> i < length xs \<Longrightarrow> turnStep (xs @ ys) i st = turnStep xs i st"
  by (auto simp add: turnStep_def nth_append)

lemma fold_turnStep_append:
  "fold (turnStep (xs @ ys)) [1..<length xs] st = fold (turnStep xs) [1..<length xs] st"
  by (rule fold_cong) (auto simp: turnStep_cong)

lemma fold_turnStep:
  "fold (turnStep path) [1..<length path] (0, None) = (countTurns path, lastDir path)"
proof (induction path rule: rev_induct)
  case Nil
  then show ?case by (simp add: countTurns_def lastDir_def)
next
  case (snoc x xs)
  show ?case
  proof (cases "xs = []")
    case True
    then show ?thesis by (simp add: countTurns_def lastDir_def)
  next
    case False
    then have len: "0 < length xs" by simp
    then have "[1..<length (xs @ [x])] = [1..<length xs] @ [length xs]"
      by (simp add: upt_Suc_append Suc_leI)
    then have "fold (turnStep (xs @ [x])) [1..<length (xs @ [x])] (0, None)
          = turnStep (xs @ [x]) (length xs) (fold (turnStep (xs @ [x])) [1..<length xs] (0, None))"
      by simp
    also have "\<dots> = turnStep (xs @ [x]) (length xs) (countTurns xs, lastDir xs)"
      by (simp only: fold_turnStep_append snoc.IH)
    also have "\<dots> = (countTurns (xs @ [x]), lastDir (xs @ [x]))"
      using False len
      by (simp add: turnStep_def countTurns_snoc lastDir_snoc Let_def nth_append last_conv_nth)
    finally show ?thesis .
  qed
qed

lemma updateTurnCount_eq:
  "updateTurnCount s =
     s\<lparr>turnCount := countTurns (selectedPath s), lastDirection := lastDir (selectedPath s),
       lastRow := fst (selectedPath s ! (length (selectedPath s) - 1)),
       lastCol := snd (selectedPath s ! (length (selectedPath s) - 1))\<rparr>"
  unfolding updateTurnCount_def fold_turnStep by (simp add: Let_def)

subsection \<open>Lists and paths\<close>

lemma indexOf_ge: "indexOf xs x \<ge> - 1"
  by (induction xs) (auto simp: Let_def)

lemma indexOf_mem: "0 \<le> indexOf xs x \<longleftrightarrow> x \<in> set xs"
  by (induction xs) (auto simp: Let_def)

lemma indexOf_nth: "x \<in> set xs \<Longrightarrow> nat (indexOf xs x) < length xs \<and> xs ! nat (indexOf xs x) = x"
proof (induction xs)
  case Nil
  then show ?case by simp
next
  case (Cons y ys)
  show ?case
  proof (cases "y = x")
    case True
    then show ?thesis by simp
  next
    case False
    with Cons.prems have m: "x \<in> set ys" by simp
    then have "0 \<le> indexOf ys x" by (simp add: indexOf_mem)
    with False Cons.IH [OF m] show ?thesis by (simp add: Let_def nat_add_distrib)
  qed
qed

lemma indexOf_distinct: "distinct xs \<Longrightarrow> i < length xs \<Longrightarrow> indexOf xs (xs ! i) = int i"
proof (induction xs arbitrary: i)
  case Nil
  then show ?case by simp
next
  case (Cons y ys)
  show ?case
  proof (cases i)
    case 0
    then show ?thesis by simp
  next
    case (Suc j)
    with Cons.prems have "j < length ys" "distinct ys" "y \<noteq> ys ! j" by auto
    with Cons.IH [of j] Suc show ?thesis by (simp add: Let_def)
  qed
qed


lemma adjacent_sym: "adjacent p q \<longleftrightarrow> adjacent q p"
  by (auto simp: adjacent_def)

lemma contiguous_butlast: "contiguous xs \<Longrightarrow> contiguous (butlast xs)"
proof -
  assume c: "contiguous xs"
  have "set (zip (butlast xs) (tl (butlast xs))) \<subseteq> set (zip xs (tl xs))"
    by (auto simp: set_zip nth_butlast nth_tl)
  with c show ?thesis by (auto simp: contiguous_def)
qed

lemma contiguous_snoc:
  "contiguous xs \<Longrightarrow> xs \<noteq> [] \<Longrightarrow> adjacent (last xs) x \<Longrightarrow> contiguous (xs @ [x])"
  by (auto simp: contiguous_def zip_tl_snoc)

subsection \<open>The three ways of \<open>handleEnter\<close>\<close>

lemma handleEnter_cases:
  assumes "path_ok s"
  obtains
    (ignore) "handleEnter t s = s"
      "cellAt (board s) (fst t) (snd t) \<noteq> currentColour s
       \<or> (t \<in> set (selectedPath s) \<and> \<not> (2 \<le> length (selectedPath s) \<and> t = selectedPath s ! (length (selectedPath s) - 2)))
       \<or> (t \<notin> set (selectedPath s) \<and> \<not> adjacent t (last (selectedPath s)))"
  | (backtrack) "2 \<le> length (selectedPath s)" "t = selectedPath s ! (length (selectedPath s) - 2)"
      "cellAt (board s) (fst t) (snd t) = currentColour s"
      "handleEnter t s = updateTurnCount (s\<lparr>selectedPath := butlast (selectedPath s)\<rparr>)"
  | (append) "t \<notin> set (selectedPath s)" "adjacent t (last (selectedPath s))"
      "cellAt (board s) (fst t) (snd t) = currentColour s"
      "handleEnter t s =
         s\<lparr>turnCount := (if lastDirection s \<noteq> None \<and> Some (fst t - lastRow s, snd t - lastCol s) \<noteq> lastDirection s
                          then turnCount s + 1 else turnCount s),
           lastDirection := Some (fst t - lastRow s, snd t - lastCol s), lastRow := fst t, lastCol := snd t,
           selectedPath := selectedPath s @ [t]\<rparr>"
proof -
  let ?p = "selectedPath s"
  from assms have d: "isDrawing s" and ne: "?p \<noteq> []" and dist: "distinct ?p"
    and l: "lastRow s = fst (last ?p)" "lastCol s = snd (last ?p)"
    by (auto simp: path_ok_def dest: arg_cong [where f = fst] arg_cong [where f = snd])
  show thesis
  proof (cases "cellAt (board s) (fst t) (snd t) = currentColour s")
    case False
    then have "handleEnter t s = s" using d by (simp add: handleEnter_def Let_def)
    then show thesis using False by (rule ignore [OF _ disjI1])
  next
    case col: True
    show thesis
    proof (cases "t \<in> set ?p")
      case mem: True
      then have idx: "0 \<le> indexOf ?p t" by (simp add: indexOf_mem)
      show thesis
      proof (cases "indexOf ?p t = int (length ?p) - 2")
        case True
        with idx have len: "2 \<le> length ?p" by linarith
        from indexOf_nth [OF mem] True len have "t = ?p ! (length ?p - 2)"
          by (simp add: nat_diff_distrib')
        moreover have "handleEnter t s = updateTurnCount (s\<lparr>selectedPath := butlast ?p\<rparr>)"
          using d col idx True by (simp add: handleEnter_def Let_def)
        ultimately show thesis using len col by (intro backtrack)
      next
        case False
        then have "handleEnter t s = s" using d col idx by (simp add: handleEnter_def Let_def)
        moreover have "\<not> (2 \<le> length ?p \<and> t = ?p ! (length ?p - 2))"
        proof
          assume a: "2 \<le> length ?p \<and> t = ?p ! (length ?p - 2)"
          then have "length ?p - 2 < length ?p" by linarith
          from indexOf_distinct [OF dist this] a have "indexOf ?p t = int (length ?p - 2)"
            by simp
          with a False show False by (simp add: of_nat_diff)
        qed
        ultimately show thesis using mem by (intro ignore) auto
      qed
    next
      case nmem: False
      then have idx: "\<not> 0 \<le> indexOf ?p t" by (simp add: indexOf_mem)
      show thesis
      proof (cases "adjacent t (last ?p)")
        case True
        then have "\<bar>fst t - lastRow s\<bar> + \<bar>snd t - lastCol s\<bar> = 1" by (simp add: adjacent_def l)
        then have "handleEnter t s =
         s\<lparr>turnCount := (if lastDirection s \<noteq> None \<and> Some (fst t - lastRow s, snd t - lastCol s) \<noteq> lastDirection s
                          then turnCount s + 1 else turnCount s),
           lastDirection := Some (fst t - lastRow s, snd t - lastCol s), lastRow := fst t, lastCol := snd t,
           selectedPath := selectedPath s @ [t]\<rparr>"
          using d col idx by (simp add: handleEnter_def Let_def)
        then show thesis using nmem True col by (intro append)
      next
        case False
        then have "\<bar>fst t - lastRow s\<bar> + \<bar>snd t - lastCol s\<bar> \<noteq> 1" by (simp add: adjacent_def l)
        then have "handleEnter t s = s" using d col idx by (simp add: handleEnter_def Let_def)
        then show thesis using nmem False by (intro ignore) auto
      qed
    qed
  qed
qed

subsection \<open>The path invariant\<close>

lemma path_ok_start: "0 < timeLeft s \<Longrightarrow> path_ok (startSelection t s)"
  by (simp add: startSelection_def path_ok_def Let_def contiguous_def)

lemma turns_ok_start: "0 < timeLeft s \<Longrightarrow> turns_ok (startSelection t s)"
  by (simp add: startSelection_def turns_ok_def Let_def countTurns_def lastDir_def)

lemma colour_ok_start: "0 < timeLeft s \<Longrightarrow> colour_ok (startSelection t s)"
  by (simp add: startSelection_def colour_ok_def Let_def)

lemma path_ok_handleEnter: "path_ok s \<Longrightarrow> path_ok (handleEnter t s)"
proof -
  assume ok: "path_ok s"
  let ?p = "selectedPath s"
  show ?thesis
  using ok
  proof (cases rule: handleEnter_cases [where t = t])
    case ignore
    with ok show ?thesis by simp
  next
    case backtrack
    from backtrack(1) have ne: "butlast ?p \<noteq> []"
      by (cases ?p rule: rev_cases) auto
    then have "butlast ?p ! (length (butlast ?p) - 1) = last (butlast ?p)"
      by (simp add: last_conv_nth)
    with ok ne show ?thesis
      unfolding backtrack(4) updateTurnCount_eq path_ok_def
      by (simp add: distinct_butlast contiguous_butlast)
  next
    case append
    with ok show ?thesis
      unfolding append(4) path_ok_def
      by (auto simp: contiguous_snoc adjacent_sym)
  qed
qed

lemma turns_ok_handleEnter: "path_ok s \<Longrightarrow> turns_ok s \<Longrightarrow> turns_ok (handleEnter t s)"
proof -
  assume ok: "path_ok s" and tk: "turns_ok s"
  let ?p = "selectedPath s"
  from ok have l: "lastRow s = fst (last ?p)" "lastCol s = snd (last ?p)" and ne: "?p \<noteq> []"
    by (auto simp: path_ok_def dest: arg_cong [where f = fst] arg_cong [where f = snd])
  show ?thesis
  using ok
  proof (cases rule: handleEnter_cases [where t = t])
    case ignore
    with tk show ?thesis by simp
  next
    case backtrack
    show ?thesis unfolding backtrack(4) updateTurnCount_eq turns_ok_def by simp
  next
    case append
    show ?thesis
      unfolding append(4) turns_ok_def using tk ne
      by (simp add: countTurns_snoc lastDir_snoc l Let_def turns_ok_def)
  qed
qed

lemma colour_ok_handleEnter: "path_ok s \<Longrightarrow> colour_ok s \<Longrightarrow> colour_ok (handleEnter t s)"
proof -
  assume ok: "path_ok s" and ck: "colour_ok s"
  show ?thesis
  using ok
  proof (cases rule: handleEnter_cases [where t = t])
    case ignore
    with ck show ?thesis by simp
  next
    case backtrack
    show ?thesis unfolding backtrack(4) updateTurnCount_eq using ck
      by (auto simp: colour_ok_def dest: in_set_butlastD)
  next
    case append
    show ?thesis unfolding append(4) using ck append(3)
      by (auto simp: colour_ok_def)
  qed
qed

lemma same_selection_refl: "same_selection s s"
  by (simp add: same_selection_def)

lemma same_selection_tick: "same_selection s (tick s)"
  by (simp add: same_selection_def tick_def endGame_def Let_def)

lemma same_selection_refillTimeout: "same_selection s (refillTimeout rnd s)"
  by (simp add: same_selection_def refillTimeout_def split: prod.splits)

lemma same_selection_chainTimeout: "same_selection s (chainTimeout s)"
  by (simp add: same_selection_def chainTimeout_def)

lemma same_selection_inv:
  "same_selection s s' \<Longrightarrow> path_ok s \<and> turns_ok s \<Longrightarrow> path_ok s' \<and> turns_ok s'"
  by (simp add: path_ok_def turns_ok_def same_selection_def)

text \<open>Through a drag the path stays simple and contiguous, and the turn counter and
  the remembered direction stay those of the path.\<close>

lemma dragging_inv: "dragging rnd s \<Longrightarrow> path_ok s \<and> turns_ok s"
proof (induction rule: dragging.induct)
  case (press s t)
  then show ?case by (simp add: path_ok_start turns_ok_start)
next
  case (step s e)
  show ?case
  proof (cases e)
    case (Extend t)
    with step.IH show ?thesis by (simp add: deliver_def path_ok_handleEnter turns_ok_handleEnter)
  next
    case Tick
    have "same_selection s (deliver rnd Tick s)"
      by (simp add: deliver_def same_selection_tick same_selection_refl)
    from same_selection_inv [OF this step.IH] Tick show ?thesis by simp
  next
    case RefillTimeout
    have "same_selection s (deliver rnd RefillTimeout s)"
      by (simp add: deliver_def same_selection_refillTimeout same_selection_refl)
    from same_selection_inv [OF this step.IH] RefillTimeout show ?thesis by simp
  next
    case ChainTimeout
    have "same_selection s (deliver rnd ChainTimeout s)"
      by (simp add: deliver_def same_selection_chainTimeout same_selection_refl)
    from same_selection_inv [OF this step.IH] ChainTimeout show ?thesis by simp
  qed (use step.hyps in simp_all)
qed

text \<open>In a drag without a round start the incremental counter is the recomputed one:
  \<open>updateTurnCount\<close> would change nothing.\<close>

lemma turnCount_consistent_while_dragging:
  assumes "dragging rnd s"
  shows "turnCount s = countTurns (selectedPath s) \<and> updateTurnCount s = s"
proof -
  from dragging_inv [OF assms] have ok: "path_ok s" and tk: "turns_ok s" by simp_all
  from ok have "selectedPath s ! (length (selectedPath s) - 1) = (lastRow s, lastCol s)"
    by (simp add: path_ok_def last_conv_nth)
  with tk show ?thesis
    unfolding updateTurnCount_eq by (simp add: turns_ok_def)
qed

lemma exampleDrag_eq:
  "exampleDrag = exampleRound\<lparr>isDrawing := True, selectedPath := [(0, 0), (0, 1), (1, 1)],
      currentColour := Some Red, lastRow := 1, lastCol := 1, lastDirection := Some (1, 0), turnCount := 1\<rparr>"
  by code_simp






text \<open>
  Claim C7 asks that the incremental \<open>turnCount\<close> be the number of direction changes
  of the path after every mutation, on every reachable selection path.
  \<open>startSelection\<close> and \<open>finishSelection\<close> reset \<open>turnCount\<close> together with
  \<open>selectedPath\<close> and \<open>lastDirection\<close>; \<open>startGame\<close> resets \<open>turnCount\<close> alone and leaves
  the drag active. The trace is that of \<open>exampleExpired\<close> (a drag over three red tiles
  with one turn, held while sixty ticks end the round), then the replay button, then
  one more move, to \<open>(1,2)\<close>. That position is not in the path, so \<open>indexOf\<close> does not
  find the entered element, whether elements or positions are compared, and the tile
  is appended: the path has two turns, the counter says one, and recomputing would
  change it.
\<close>

theorem turnCount_desync_after_startGame:
  "isDrawing exampleExpired \<and> selectedPath exampleExpired = [(0, 0), (0, 1), (1, 1)]
   \<and> turnCount exampleExpired = 1 \<and> countTurns (selectedPath exampleExpired) = 1
   \<and> isDrawing (deliver noRandom StartGame exampleExpired)
   \<and> selectedPath (deliver noRandom StartGame exampleExpired) = [(0, 0), (0, 1), (1, 1)]
   \<and> turnCount (deliver noRandom StartGame exampleExpired) = 0
   \<and> selectedPath exampleRestarted = [(0, 0), (0, 1), (1, 1), (1, 2)]
   \<and> turnCount exampleRestarted = 1
   \<and> countTurns (selectedPath exampleRestarted) = 2
   \<and> turnCount (updateTurnCount exampleRestarted) = 2
   \<and> updateTurnCount exampleRestarted \<noteq> exampleRestarted"
  by code_simp

subsection \<open>Committing and abandoning\<close>

lemma wf_board_setCell: "wf_board b \<Longrightarrow> wf_board (setCell b r c v)"
proof (cases "nat r < length b")
  case True
  assume w: "wf_board b"
  from True have "b ! nat r \<in> set b" by simp
  with w have "int (length ((b ! nat r)[nat c := v])) = COLS" by (simp add: wf_board_def)
  moreover have "set (b[nat r := (b ! nat r)[nat c := v]]) \<subseteq> insert ((b ! nat r)[nat c := v]) (set b)"
    by (rule set_update_subset_insert)
  ultimately show ?thesis using w unfolding wf_board_def setCell_def by auto
next
  case False
  assume "wf_board b"
  with False show ?thesis by (simp add: setCell_def list_update_beyond)
qed

lemma cellAt_setCell:
  assumes "wf_board b" "in_bounds (r, c)" "in_bounds (r', c')"
  shows "cellAt (setCell b r c v) r' c' = (if (r', c') = (r, c) then v else cellAt b r' c')"
proof -
  from assms have r: "nat r < length b" "nat r' < length b"
    by (auto simp: wf_board_def in_bounds_def)
  then have "b ! nat r \<in> set b" by simp
  with assms have c: "nat c < length (b ! nat r)"
    by (auto simp: wf_board_def in_bounds_def)
  have eq: "nat r' = nat r \<longleftrightarrow> r' = r" "nat c' = nat c \<longleftrightarrow> c' = c"
    using assms by (auto simp: in_bounds_def)
  show ?thesis
    using r c eq by (auto simp: cellAt_def setCell_def nth_list_update)
qed

lemma wf_board_clearTiles: "wf_board b \<Longrightarrow> wf_board (clearTiles path b)"
  unfolding clearTiles_def by (induction path arbitrary: b) (simp_all add: wf_board_setCell)

lemma cellAt_clearTiles:
  assumes "wf_board b" "\<forall>t \<in> set path. in_bounds t" "in_bounds p"
  shows "cellAt (clearTiles path b) (fst p) (snd p) = (if p \<in> set path then None else cellAt b (fst p) (snd p))"
  using assms
proof (induction path arbitrary: b)
  case Nil
  then show ?case by (simp add: clearTiles_def)
next
  case (Cons t path)
  have step: "clearTiles (t # path) b = clearTiles path (setCell b (fst t) (snd t) None)"
    by (simp add: clearTiles_def)
  from Cons.prems have w: "wf_board (setCell b (fst t) (snd t) None)" and ib: "in_bounds (fst t, snd t)"
    by (simp_all add: wf_board_setCell)
  from Cons.IH [OF w] Cons.prems
  have "cellAt (clearTiles path (setCell b (fst t) (snd t) None)) (fst p) (snd p)
        = (if p \<in> set path then None else cellAt (setCell b (fst t) (snd t) None) (fst p) (snd p))"
    by simp
  also have "cellAt (setCell b (fst t) (snd t) None) (fst p) (snd p)
        = (if p = t then None else cellAt b (fst p) (snd p))"
    using cellAt_setCell [OF Cons.prems(1) ib, of "fst p" "snd p" None] Cons.prems(3)
    by (auto simp: prod_eq_iff)
  finally show ?case unfolding step by auto
qed

lemma score_commitPath:
  "score (commitPath s) = score s + calculateScore (int (length (selectedPath s))) (turnCount s) (chainCount s)"
  by (simp add: commitPath_def Let_def)

lemma board_commitPath: "board (commitPath s) = clearTiles (selectedPath s) (board s)"
  by (simp add: commitPath_def Let_def)

lemma in_bounds_exampleDrag: "\<forall>t \<in> set (selectedPath exampleDrag). in_bounds t"
  by (simp add: exampleDrag_eq in_bounds_def ROWS_def COLS_def)

lemma wf_exampleBoard: "wf_board exampleBoard"
  by (simp add: wf_board_def exampleBoard_def ROWS_def COLS_def)

text \<open>
  Claim C6. Called in the Selecting state, \<open>finishSelection\<close> commits exactly when the
  path has three or more elements: it adds \<open>calculateScore(length, turnCount,
  chainCount)\<close> to the score and empties each cell of the path (and no other cell).
  With a shorter path it abandons: the state is the old one with the selection
  variables cleared, so the score and the board are the same.
\<close>

theorem finishSelection_commit_or_abandon:
  assumes "isDrawing s"
  shows "(3 \<le> length (selectedPath s) \<longrightarrow>
            score (finishSelection s)
              = score s + calculateScore (int (length (selectedPath s))) (turnCount s) (chainCount s)
          \<and> (wf_board (board s) \<and> (\<forall>t \<in> set (selectedPath s). in_bounds t) \<longrightarrow>
               (\<forall>p. in_bounds p \<longrightarrow>
                  cellAt (board (finishSelection s)) (fst p) (snd p)
                    = (if p \<in> set (selectedPath s) then None else cellAt (board s) (fst p) (snd p)))))
       \<and> (length (selectedPath s) < 3 \<longrightarrow>
            finishSelection s
              = s\<lparr>isDrawing := False, selectedPath := [], currentColour := None,
                  lastDirection := None, turnCount := 0\<rparr>
          \<and> score (finishSelection s) = score s \<and> board (finishSelection s) = board s)"
proof (intro conjI impI allI)
  assume "3 \<le> length (selectedPath s)"
  then have f: "finishSelection s
      = (commitPath (s\<lparr>isDrawing := False\<rparr>))\<lparr>selectedPath := [], currentColour := None,
            lastDirection := None, turnCount := 0\<rparr>"
    using assms by (simp add: finishSelection_def Let_def)
  show "score (finishSelection s)
      = score s + calculateScore (int (length (selectedPath s))) (turnCount s) (chainCount s)"
    unfolding f by (simp add: score_commitPath)
  fix p
  assume "wf_board (board s) \<and> (\<forall>t \<in> set (selectedPath s). in_bounds t)" "in_bounds p"
  then show "cellAt (board (finishSelection s)) (fst p) (snd p)
      = (if p \<in> set (selectedPath s) then None else cellAt (board s) (fst p) (snd p))"
    unfolding f by (simp add: board_commitPath cellAt_clearTiles)
next
  assume "length (selectedPath s) < 3"
  then show f: "finishSelection s
      = s\<lparr>isDrawing := False, selectedPath := [], currentColour := None,
          lastDirection := None, turnCount := 0\<rparr>"
    using assms by (simp add: finishSelection_def Let_def)
  show "score (finishSelection s) = score s" "board (finishSelection s) = board s"
    unfolding f by simp_all
qed

theorem finishSelection_commit_or_abandon_witness:
  "isDrawing exampleDrag \<and> length (selectedPath exampleDrag) = 3
   \<and> score exampleDrag = 0 \<and> score (finishSelection exampleDrag) = 104
   \<and> cellAt (board (finishSelection exampleDrag)) 1 1 = None
   \<and> cellAt (board (finishSelection exampleDrag)) 0 2 = Some Red
   \<and> isDrawing exampleShort \<and> length (selectedPath exampleShort) = 2
   \<and> score (finishSelection exampleShort) = 0
   \<and> board (finishSelection exampleShort) = exampleBoard"
proof -
  have d: "isDrawing exampleDrag" "length (selectedPath exampleDrag) = 3" "score exampleDrag = 0"
    "turnCount exampleDrag = 1" "chainCount exampleDrag = 1" "board exampleDrag = exampleBoard"
    "selectedPath exampleDrag = [(0, 0), (0, 1), (1, 1)]"
    by (simp_all add: exampleDrag_eq exampleRound_def)
  have e: "isDrawing exampleShort" "length (selectedPath exampleShort) = 2" "score exampleShort = 0"
    "board exampleShort = exampleBoard"
    by code_simp+
  have c: "calculateScore 3 1 1 = 104" by (simp add: calculateScore_closed_form)
  have i: "in_bounds (1, 1)" "in_bounds (0, 2)" by (simp_all add: in_bounds_def ROWS_def COLS_def)
  have r: "cellAt exampleBoard 0 2 = Some Red" by (simp add: cellAt_def exampleBoard_def)
  from finishSelection_commit_or_abandon [OF d(1)] in_bounds_exampleDrag wf_exampleBoard
  have "score (finishSelection exampleDrag) = 104"
    "cellAt (board (finishSelection exampleDrag)) (fst (1, 1)) (snd (1, 1)) = None"
    "cellAt (board (finishSelection exampleDrag)) (fst (0, 2)) (snd (0, 2)) = Some Red"
    using i r by (simp_all add: d c)
  moreover from finishSelection_commit_or_abandon [OF e(1)]
  have "score (finishSelection exampleShort) = 0" "board (finishSelection exampleShort) = exampleBoard"
    by (simp_all add: e)
  ultimately show ?thesis using d e by simp
qed

subsection \<open>Calls in the wrong state\<close>

text \<open>
  Claim C8, as stated, asks that \<open>startSelection\<close> change nothing while a selection is
  active. It does not hold: pressing \<open>(3, 3)\<close> in the middle of the example drag throws
  the path away and starts a new one.
\<close>

theorem begin_while_selecting_counterexample:
  "isDrawing exampleDrag \<and> 0 < timeLeft exampleDrag
   \<and> selectedPath exampleDrag = [(0, 0), (0, 1), (1, 1)]
   \<and> selectedPath (startSelection (3, 3) exampleDrag) = [(3, 3)]
   \<and> startSelection (3, 3) exampleDrag \<noteq> exampleDrag"
proof -
  have a: "isDrawing exampleDrag" "0 < timeLeft exampleDrag"
    "selectedPath exampleDrag = [(0, 0), (0, 1), (1, 1)]"
    by (simp_all add: exampleDrag_eq exampleRound_def)
  then have b: "selectedPath (startSelection (3, 3) exampleDrag) = [(3, 3)]"
    by (simp add: startSelection_def Let_def)
  have "startSelection (3, 3) exampleDrag \<noteq> exampleDrag"
  proof
    assume "startSelection (3, 3) exampleDrag = exampleDrag"
    then have "selectedPath (startSelection (3, 3) exampleDrag) = selectedPath exampleDrag" by simp
    with a b show False by simp
  qed
  with a b show ?thesis by simp
qed

text \<open>
  Claim C8, amended. \<open>handleEnter\<close> and \<open>finishSelection\<close> change nothing while no
  selection is active; \<open>startSelection\<close> changes nothing once the clock has expired;
  while the clock runs, \<open>startSelection\<close> (whether or not a selection is active)
  restarts the one selection at the pressed tile, writing the selection variables
  only, and a second call on the same tile changes nothing more.
\<close>

theorem invalid_state_calls:
  "(\<not> isDrawing s \<longrightarrow> handleEnter t s = s \<and> finishSelection s = s)
   \<and> (timeLeft s \<le> 0 \<longrightarrow> startSelection t s = s)
   \<and> (0 < timeLeft s \<longrightarrow>
        startSelection t s
          = s\<lparr>isDrawing := True, selectedPath := [t], lastDirection := None, turnCount := 0,
              currentColour := cellAt (board s) (fst t) (snd t), lastRow := fst t, lastCol := snd t\<rparr>
      \<and> startSelection t (startSelection t s) = startSelection t s)"
  by (simp add: handleEnter_def finishSelection_def startSelection_def Let_def)

theorem invalid_state_calls_witness:
  "\<not> isDrawing exampleRound
   \<and> handleEnter (0, 1) exampleRound = exampleRound \<and> finishSelection exampleRound = exampleRound
   \<and> timeLeft (exampleRound\<lparr>timeLeft := 0\<rparr>) \<le> 0
   \<and> startSelection (0, 0) (exampleRound\<lparr>timeLeft := 0\<rparr>) = exampleRound\<lparr>timeLeft := 0\<rparr>
   \<and> 0 < timeLeft exampleDrag
   \<and> selectedPath (startSelection (3, 3) exampleDrag) = [(3, 3)]
   \<and> score (startSelection (3, 3) exampleDrag) = score exampleDrag
   \<and> board (startSelection (3, 3) exampleDrag) = board exampleDrag
   \<and> startSelection (3, 3) (startSelection (3, 3) exampleDrag) = startSelection (3, 3) exampleDrag"
proof -
  have a: "\<not> isDrawing exampleRound" "timeLeft (exampleRound\<lparr>timeLeft := 0\<rparr>) \<le> 0"
    "0 < timeLeft exampleDrag"
    by (simp_all add: exampleDrag_eq exampleRound_def)
  have h1: "handleEnter (0, 1) exampleRound = exampleRound \<and> finishSelection exampleRound = exampleRound"
    using invalid_state_calls [of exampleRound "(0, 1)"] a(1) by blast
  have h2: "startSelection (0, 0) (exampleRound\<lparr>timeLeft := 0\<rparr>) = exampleRound\<lparr>timeLeft := 0\<rparr>"
    using invalid_state_calls [of "exampleRound\<lparr>timeLeft := 0\<rparr>" "(0, 0)"] a(2) by blast
  have h3: "startSelection (3, 3) exampleDrag
      = exampleDrag\<lparr>isDrawing := True, selectedPath := [(3, 3)], lastDirection := None, turnCount := 0,
          currentColour := cellAt (board exampleDrag) 3 3, lastRow := 3, lastCol := 3\<rparr>"
    and h4: "startSelection (3, 3) (startSelection (3, 3) exampleDrag) = startSelection (3, 3) exampleDrag"
    using invalid_state_calls [of exampleDrag "(3, 3)", unfolded fst_conv snd_conv] a(3) by blast+
  have h5: "selectedPath (startSelection (3, 3) exampleDrag) = [(3, 3)]"
    "score (startSelection (3, 3) exampleDrag) = score exampleDrag"
    "board (startSelection (3, 3) exampleDrag) = board exampleDrag"
    unfolding h3 by simp_all
  from a h1 h2 h4 h5 show ?thesis by blast
qed

subsection \<open>After the clock has run out\<close>

text \<open>
  Claim C9 asks that nothing change the score or the board once \<open>timeLeft\<close> has reached
  zero. \<open>finishSelection\<close> does not look at the clock: a drag that is still active when
  the sixtieth tick ends the round is committed on release. The trace is the example
  round, a drag over three red tiles, sixty ticks, and the release.
\<close>

theorem finishSelection_after_round_end:
  "timeLeft exampleExpired = 0 \<and> \<not> timerRunning exampleExpired \<and> isDrawing exampleExpired
   \<and> score exampleExpired = 0 \<and> cellAt (board exampleExpired) 0 0 = Some Red
   \<and> score (deliver noRandom End exampleExpired) = 104
   \<and> cellAt (board (deliver noRandom End exampleExpired)) 0 0 = None"
  by code_simp

section \<open>Collapse theorems\<close>

lemma length_column [simp]: "length (column b c) = length b"
  by (simp add: column_def)

lemma wf_board_length: "wf_board b \<Longrightarrow> length b = 6"
  by (simp add: wf_board_def ROWS_def)

lemma wf_board_row: "wf_board b \<Longrightarrow> i < 6 \<Longrightarrow> length (b ! i) = 6"
  by (simp add: wf_board_def ROWS_def COLS_def)

lemma cellAt_column: "nat r < length b \<Longrightarrow> cellAt b r c = column b c ! nat r"
  by (simp add: cellAt_def column_def)

lemma column_setCell_same:
  assumes "wf_board b" "nat r < 6" "0 \<le> c" "c < COLS"
  shows "column (setCell b r c v) c = (column b c)[nat r := v]"
proof (rule nth_equalityI)
  show "length (column (setCell b r c v) c) = length ((column b c)[nat r := v])"
    by (simp add: setCell_def)
next
  fix i assume "i < length (column (setCell b r c v) c)"
  then have i: "i < length b" by (simp add: setCell_def)
  have "nat c < length (b ! nat r)"
    using assms wf_board_row [OF assms(1,2)] by (simp add: COLS_def)
  then show "column (setCell b r c v) c ! i = (column b c)[nat r := v] ! i"
    using i by (cases "i = nat r") (simp_all add: column_def setCell_def)
qed

lemma column_setCell_other:
  assumes "0 \<le> c" "0 \<le> c'" "c' \<noteq> c"
  shows "column (setCell b r c v) c' = column b c'"
proof (rule nth_equalityI)
  show "length (column (setCell b r c v) c') = length (column b c')"
    by (simp add: setCell_def)
next
  fix i assume "i < length (column (setCell b r c v) c')"
  then have i: "i < length b" by (simp add: setCell_def)
  have "nat c' \<noteq> nat c" using assms by simp
  then show "column (setCell b r c v) c' ! i = column b c' ! i"
    using i by (cases "i = nat r") (simp_all add: column_def setCell_def)
qed

lemma take_all_None:
  "m \<le> length xs \<Longrightarrow> \<forall>i < m. xs ! i = None \<Longrightarrow> take m xs = replicate m None"
  by (rule nth_equalityI) simp_all

lemma upto_rev_Suc: "rev [0..int (Suc n) - 1] = int n # rev [0..int n - 1]"
proof -
  have "[0..int n] = [0..int n - 1] @ [int n]"
    by (rule upto_rec2) simp
  then show ?thesis by simp
qed

lemma length_solid_le: "length (solid xs) \<le> length xs"
  by (simp add: solid_def)

lemma solid_snoc: "solid (xs @ [x]) = (if x = None then solid xs else solid xs @ [x])"
  by (simp add: solid_def)

text \<open>The inner loop, with rows \<open>n\<close> and below still to scan and the pointer at row
  \<open>m - 1\<close>: the cells between the scan and the pointer are empty, and the loop leaves
  the tiles of the rows still to scan, in their order, right above the rows under the
  pointer.\<close>

lemma collapse_rows:
  assumes "wf_board b" "0 \<le> c" "c < COLS" "n \<le> m" "m \<le> 6"
    and "\<forall>i. n \<le> i \<and> i < m \<longrightarrow> column b c ! i = None"
  shows "wf_board (fst (fold (collapseStep c) (rev [0..int n - 1]) (b, int m - 1)))
       \<and> column (fst (fold (collapseStep c) (rev [0..int n - 1]) (b, int m - 1))) c
           = replicate (m - length (solid (take n (column b c)))) None
             @ solid (take n (column b c)) @ drop m (column b c)
       \<and> (\<forall>c'. 0 \<le> c' \<and> c' \<noteq> c \<longrightarrow>
             column (fst (fold (collapseStep c) (rev [0..int n - 1]) (b, int m - 1))) c' = column b c')"
  using assms
proof (induction n arbitrary: b m)
  case 0
  have len: "length (column b c) = 6" using 0 by (simp add: wf_board_length)
  have "take m (column b c) = replicate m None"
    using 0 len by (intro take_all_None) simp_all
  then have "column b c = replicate m None @ drop m (column b c)"
    by (metis append_take_drop_id)
  then show ?case using 0 by (simp add: solid_def)
next
  case (Suc n)
  let ?col = "column b c"
  have len: "length ?col = 6" using Suc.prems by (simp add: wf_board_length)
  have lb: "length b = 6" using Suc.prems by (simp add: wf_board_length)
  have nm: "n < m" "n < 6" "n \<le> m" using Suc.prems by simp_all
  have cell: "cellAt b (int n) c = ?col ! n"
    using cellAt_column [of "int n" b c] lb nm by simp
  have tk: "take (Suc n) ?col = take n ?col @ [?col ! n]"
    using len nm by (simp add: take_Suc_conv_app_nth)
  show ?case
  proof (cases "?col ! n")
    case None
    then have step: "collapseStep c (int n) (b, int m - 1) = (b, int m - 1)"
      by (simp add: collapseStep_def cell)
    have gap: "\<forall>i. n \<le> i \<and> i < m \<longrightarrow> ?col ! i = None"
      using Suc.prems(6) None by (metis Suc_leI le_neq_implies_less)
    have "solid (take (Suc n) ?col) = solid (take n ?col)"
      by (simp add: tk solid_snoc None)
    with Suc.IH [OF Suc.prems(1,2,3) nm(3) Suc.prems(5) gap]
    show ?thesis by (simp only: upto_rev_Suc fold_simps step) simp
  next
    case (Some v)
    have sol: "solid (take (Suc n) ?col) = solid (take n ?col) @ [Some v]"
      by (simp add: tk solid_snoc Some)
    have ls: "length (solid (take n ?col)) \<le> n"
      using length_solid_le [of "take n ?col"] by simp
    show ?thesis
    proof (cases "n = m - 1")
      case True
      then have inm: "int m - 1 = int n" using nm by simp
      have "collapseStep c (int n) (b, int n) = (b, int n - 1)"
        by (simp add: collapseStep_def cell Some)
      then have step: "collapseStep c (int n) (b, int m - 1) = (b, int (m - 1) - 1)"
        unfolding inm using True by simp
      have m1: "n \<le> m - 1" "m - 1 \<le> 6" using True Suc.prems by simp_all
      have gap: "\<forall>i. n \<le> i \<and> i < m - 1 \<longrightarrow> ?col ! i = None" using True by auto
      have dr: "drop (m - 1) ?col = Some v # drop m ?col"
        using True nm len Some by (metis Cons_nth_drop_Suc Suc_diff_1 less_nat_zero_code neq0_conv)
      have k: "replicate (m - 1 - length (solid (take n ?col))) None
            = replicate (m - length (solid (take (Suc n) ?col))) None"
        by (simp add: sol)
      from Suc.IH [OF Suc.prems(1,2,3) m1 gap]
      show ?thesis by (simp only: upto_rev_Suc fold_simps step dr k sol) simp
    next
      case False
      then have lt: "n < m - 1" using nm by simp
      let ?b' = "setCell (setCell b (int m - 1) c (Some v)) (int n) c None"
      have ne: "int n \<noteq> int m - 1" "int m - 1 - 1 = int (m - 1) - 1" using lt by simp_all
      have step: "collapseStep c (int n) (b, int m - 1) = (?b', int (m - 1) - 1)"
        by (simp add: collapseStep_def cell Some ne)
      have wf': "wf_board ?b'" using Suc.prems(1) by (simp add: wf_board_setCell)
      have m6: "nat (int m - 1) < 6" "nat (int m - 1) = m - 1" using Suc.prems nm by simp_all
      have c1: "column (setCell b (int m - 1) c (Some v)) c = ?col[m - 1 := Some v]"
        using column_setCell_same [OF Suc.prems(1) m6(1) Suc.prems(2,3)] m6(2) by simp
      have "nat (int n) < 6" using nm by simp
      from column_setCell_same [OF wf_board_setCell [OF Suc.prems(1)] this Suc.prems(2,3)]
      have c2: "column ?b' c = (column (setCell b (int m - 1) c (Some v)) c)[n := None]"
        by simp
      have col': "column ?b' c = ?col[m - 1 := Some v, n := None]"
        unfolding c2 c1 ..
      have oth: "\<forall>c'. 0 \<le> c' \<and> c' \<noteq> c \<longrightarrow> column ?b' c' = column b c'"
        using Suc.prems(2) by (simp add: column_setCell_other)
      have m1: "n \<le> m - 1" "m - 1 \<le> 6" using lt Suc.prems by simp_all
      have gap: "\<forall>i. n \<le> i \<and> i < m - 1 \<longrightarrow> column ?b' c ! i = None"
      proof (intro allI impI)
        fix i assume i: "n \<le> i \<and> i < m - 1"
        show "column ?b' c ! i = None"
        proof (cases "i = n")
          case True
          then show ?thesis using len nm by (simp add: col')
        next
          case False
          with i have "Suc n \<le> i \<and> i < m" by linarith
          with Suc.prems(6) have "?col ! i = None" by blast
          with False i show ?thesis by (simp add: col')
        qed
      qed
      have tk': "take n (column ?b' c) = take n ?col"
        using lt by (simp add: col')
      have dr: "drop (m - 1) (column ?b' c) = Some v # drop m ?col"
      proof -
        have "drop (m - 1) (column ?b' c) = drop (m - 1) (?col[m - 1 := Some v])"
          using lt by (simp add: col' drop_update_cancel)
        also have "\<dots> = Some v # drop (Suc (m - 1)) (?col[m - 1 := Some v])"
          using len Suc.prems nm by (subst Cons_nth_drop_Suc [symmetric]) simp_all
        also have "\<dots> = Some v # drop m ?col"
          using nm by simp
        finally show ?thesis .
      qed
      have k: "replicate (m - 1 - length (solid (take n ?col))) None
            = replicate (m - length (solid (take (Suc n) ?col))) None"
        by (simp add: sol)
      from Suc.IH [OF wf' Suc.prems(2,3) m1 gap] oth
      show ?thesis by (simp only: upto_rev_Suc fold_simps step tk' dr k sol) simp
    qed
  qed
qed

lemma compacted_solid: "compacted xs = replicate (length xs - length (solid xs)) None @ solid xs"
proof -
  have "length (filter (\<lambda>x. x = None) xs) + length (solid xs) = length xs"
    unfolding solid_def using sum_length_filter_compl [of "\<lambda>x. x = None" xs] by simp
  then show ?thesis by (simp add: compacted_def solid_def)
qed

lemma collapseColumn_column:
  assumes "wf_board b" "0 \<le> c" "c < COLS"
  shows "wf_board (collapseColumn c b)"
    and "column (collapseColumn c b) c = compacted (column b c)"
    and "0 \<le> c' \<Longrightarrow> c' \<noteq> c \<Longrightarrow> column (collapseColumn c b) c' = column b c'"
proof -
  have len: "length (column b c) = 6" using assms by (simp add: wf_board_length)
  have r: "rev [0..ROWS - 1] = rev [0..int 6 - 1]" "ROWS - 1 = int 6 - 1" by (simp_all add: ROWS_def)
  have g: "\<forall>i::nat. 6 \<le> i \<and> i < 6 \<longrightarrow> column b c ! i = None" by auto
  from collapse_rows [OF assms le_refl le_refl g]
  have a: "wf_board (collapseColumn c b)"
    "column (collapseColumn c b) c
       = replicate (6 - length (solid (take 6 (column b c)))) None
         @ solid (take 6 (column b c)) @ drop 6 (column b c)"
    "\<forall>c'. 0 \<le> c' \<and> c' \<noteq> c \<longrightarrow> column (collapseColumn c b) c' = column b c'"
    unfolding collapseColumn_def r by simp_all
  show "wf_board (collapseColumn c b)" by (rule a(1))
  show "column (collapseColumn c b) c = compacted (column b c)"
    unfolding a(2) compacted_solid using len by simp
  show "0 \<le> c' \<Longrightarrow> c' \<noteq> c \<Longrightarrow> column (collapseColumn c b) c' = column b c'"
    using a(3) by simp
qed

lemma fold_collapseColumn:
  assumes "wf_board b" "distinct cs" "\<forall>c \<in> set cs. 0 \<le> c \<and> c < COLS"
  shows "wf_board (fold collapseColumn cs b)
       \<and> (\<forall>c. 0 \<le> c \<longrightarrow> column (fold collapseColumn cs b) c
              = (if c \<in> set cs then compacted (column b c) else column b c))"
  using assms
proof (induction cs arbitrary: b)
  case Nil
  then show ?case by simp
next
  case (Cons a cs)
  have a: "0 \<le> a" "a < COLS" "a \<notin> set cs" using Cons.prems by simp_all
  note cc = collapseColumn_column [OF Cons.prems(1) a(1,2)]
  from Cons.IH [OF cc(1)] Cons.prems
  have ih: "wf_board (fold collapseColumn cs (collapseColumn a b))"
    "\<And>c. 0 \<le> c \<Longrightarrow> column (fold collapseColumn cs (collapseColumn a b)) c
        = (if c \<in> set cs then compacted (column (collapseColumn a b) c) else column (collapseColumn a b) c)"
    by simp_all
  show ?case
  proof (intro conjI allI impI)
    show "wf_board (fold collapseColumn (a # cs) b)" using ih(1) by simp
  next
    fix c :: int assume c: "0 \<le> c"
    show "column (fold collapseColumn (a # cs) b) c
        = (if c \<in> set (a # cs) then compacted (column b c) else column b c)"
    proof (cases "c = a")
      case True
      then show ?thesis using ih(2) [OF c] a(3) cc(2) by simp
    next
      case False
      then show ?thesis using ih(2) [OF c] cc(3) [OF c False] by simp
    qed
  qed
qed

lemma collapseBoard_column:
  assumes "wf_board b"
  shows "wf_board (collapseBoard b)"
    and "0 \<le> c \<Longrightarrow> c < COLS \<Longrightarrow> column (collapseBoard b) c = compacted (column b c)"
proof -
  have d: "distinct [0..COLS - 1]" "\<forall>c \<in> set [0..COLS - 1]. 0 \<le> c \<and> c < COLS"
    by simp_all
  note f = fold_collapseColumn [OF assms d]
  show "wf_board (collapseBoard b)" using f by (simp add: collapseBoard_def)
  show "0 \<le> c \<Longrightarrow> c < COLS \<Longrightarrow> column (collapseBoard b) c = compacted (column b c)"
    using f by (simp add: collapseBoard_def)
qed

lemma compacted_idem: "compacted (compacted xs) = compacted xs"
  by (auto simp add: compacted_def filter_empty_conv)

lemma board_eqI:
  assumes "wf_board b" "wf_board b'" "\<And>c. 0 \<le> c \<Longrightarrow> c < COLS \<Longrightarrow> column b c = column b' c"
  shows "b = b'"
proof (rule nth_equalityI)
  show "length b = length b'" using assms by (simp add: wf_board_length)
next
  fix i assume i: "i < length b"
  then have i6: "i < 6" using assms(1) by (simp add: wf_board_length)
  show "b ! i = b' ! i"
  proof (rule nth_equalityI)
    show "length (b ! i) = length (b' ! i)"
      using assms i6 by (simp add: wf_board_row)
  next
    fix j assume "j < length (b ! i)"
    then have j: "j < 6" using assms(1) i6 by (simp add: wf_board_row)
    then have "column b (int j) = column b' (int j)"
      by (intro assms(3)) (simp_all add: COLS_def)
    then have "column b (int j) ! i = column b' (int j) ! i" by simp
    then show "b ! i ! j = b' ! i ! j"
      using i i6 assms by (simp add: column_def wf_board_length)
  qed
qed

text \<open>
  Claim C3. On every 6 by 6 board, whatever its cells, \<open>collapseBoard\<close> compacts each
  column on its own: the column of the result is the empty cells of the column
  followed by its tiles in their top-to-bottom order. And \<open>collapseBoard\<close> is
  idempotent: a second application returns the same board.
\<close>

theorem collapseBoard_compacts:
  assumes "wf_board b"
  shows "wf_board (collapseBoard b)
       \<and> (\<forall>c. 0 \<le> c \<and> c < COLS \<longrightarrow> column (collapseBoard b) c = compacted (column b c))
       \<and> collapseBoard (collapseBoard b) = collapseBoard b"
proof -
  note c1 = collapseBoard_column [OF assms]
  note c2 = collapseBoard_column [OF c1(1)]
  have "collapseBoard (collapseBoard b) = collapseBoard b"
  proof (rule board_eqI [OF c2(1) c1(1)])
    fix c :: int assume c: "0 \<le> c" "c < COLS"
    show "column (collapseBoard (collapseBoard b)) c = column (collapseBoard b) c"
      using c1(2) [OF c] c2(2) [OF c] by (simp add: compacted_idem)
  qed
  with c1 show ?thesis by simp
qed

theorem collapseBoard_compacts_witness:
  "wf_board exampleHoles
   \<and> column exampleHoles 0 = [Some Red, None, Some Yellow, None, Some Purple, None]
   \<and> column (collapseBoard exampleHoles) 0 = [None, None, None, Some Red, Some Yellow, Some Purple]
   \<and> column (collapseBoard exampleHoles) 4 = [None, None, None, None, None, None]
   \<and> column (collapseBoard exampleHoles) 5 = [None, Some Green, Some Red, Some Yellow, Some Green, Some Purple]
   \<and> collapseBoard (collapseBoard exampleHoles) = collapseBoard exampleHoles"
proof -
  have w: "wf_board exampleHoles"
    by (simp add: wf_board_def exampleHoles_def ROWS_def COLS_def)
  have c: "column exampleHoles 0 = [Some Red, None, Some Yellow, None, Some Purple, None]"
    "compacted (column exampleHoles 0) = [None, None, None, Some Red, Some Yellow, Some Purple]"
    "compacted (column exampleHoles 4) = [None, None, None, None, None, None]"
    "compacted (column exampleHoles 5) = [None, Some Green, Some Red, Some Yellow, Some Green, Some Purple]"
    by (simp_all add: column_def compacted_def exampleHoles_def)
  from collapseBoard_compacts [OF w] w c show ?thesis by (simp add: COLS_def)
qed


section \<open>Reshuffle theorems\<close>

subsection \<open>Regenerating the board\<close>

lemma randomColour_Some:
  assumes "0 \<le> u" "u < 1"
  shows "randomColour u \<noteq> None"
proof -
  have "0 \<le> \<lfloor>u * 5\<rfloor>" using assms by simp
  moreover have "\<lfloor>u * 5\<rfloor> < 5" using assms by (simp add: floor_less_iff)
  ultimately show ?thesis by (simp add: randomColour_def COLOURS_def Let_def)
qed

lemma allCells_alt: "allCells = map (\<lambda>i. (int i div 6, int i mod 6)) [0..<36]"
  by code_simp

lemma distinct_allCells: "distinct allCells"
  by code_simp

lemma length_allCells: "length allCells = 36"
  by (simp add: allCells_alt)

lemma allCells_nth:
  assumes "in_bounds (r, c)"
  shows "nat (r * 6 + c) < 36" "allCells ! nat (r * 6 + c) = (r, c)"
proof -
  from assms have b: "0 \<le> r" "r < 6" "0 \<le> c" "c < 6"
    by (simp_all add: in_bounds_def ROWS_def COLS_def)
  then show i: "nat (r * 6 + c) < 36" by simp
  have "(r * 6 + c) div 6 = r" "(r * 6 + c) mod 6 = c" using b by simp_all
  then show "allCells ! nat (r * 6 + c) = (r, c)"
    using i b by (simp add: allCells_alt)
qed

lemma in_bounds_allCells: "\<forall>p \<in> set allCells. in_bounds p"
  by code_simp

lemma regenStep_pair: "regenStep rnd (r, c) (b, k) = (setCell b r c (randomColour (rnd k)), k + 1)"
  by (simp add: regenStep_def)

lemma regen_fold:
  assumes "distinct ps" "\<forall>p \<in> set ps. in_bounds p" "wf_board b"
  shows "snd (fold (regenStep rnd) ps (b, k)) = k + length ps
       \<and> wf_board (fst (fold (regenStep rnd) ps (b, k)))
       \<and> (\<forall>i < length ps. cellAt (fst (fold (regenStep rnd) ps (b, k))) (fst (ps ! i)) (snd (ps ! i))
              = randomColour (rnd (k + i)))"
  using assms
proof (induction ps arbitrary: b k)
  case Nil
  then show ?case by simp
next
  case (Cons p ps)
  obtain r c where p: "p = (r, c)" by (cases p)
  let ?b = "setCell b r c (randomColour (rnd k))"
  have step: "fold (regenStep rnd) (p # ps) (b, k) = fold (regenStep rnd) ps (?b, k + 1)"
    by (simp add: regenStep_pair p)
  have wf: "wf_board ?b" using Cons.prems by (simp add: wf_board_setCell)
  have ib: "in_bounds (r, c)" using Cons.prems p by simp
  from Cons.prems have d: "distinct ps" "\<forall>p \<in> set ps. in_bounds p" "p \<notin> set ps" by simp_all
  note ih = Cons.IH [OF d(1,2) wf, of "k + 1"]
  have keep: "cellAt (fst (fold (regenStep rnd) ps (b', k'))) r c = cellAt b' r c"
    if "wf_board b'" for b' k'
    using d that
  proof (induction ps arbitrary: b' k')
    case Nil
    then show ?case by simp
  next
    case (Cons q qs)
    obtain r' c' where q: "q = (r', c')" by (cases q)
    have ne: "(r, c) \<noteq> (r', c')" using Cons.prems p q by auto
    have ibq: "in_bounds (r', c')" using Cons.prems q by simp
    have "cellAt (fst (fold (regenStep rnd) qs (setCell b' r' c' (randomColour (rnd k')), k' + 1))) r c
        = cellAt (setCell b' r' c' (randomColour (rnd k'))) r c"
      using Cons.prems by (intro Cons.IH) (simp_all add: wf_board_setCell)
    also have "\<dots> = cellAt b' r c"
      using cellAt_setCell [OF Cons.prems(4) ibq ib] ne by auto
    finally show ?case by (simp add: regenStep_pair q)
  qed
  show ?case
  proof (intro conjI allI impI)
    show "snd (fold (regenStep rnd) (p # ps) (b, k)) = k + length (p # ps)"
      unfolding step using ih by simp
    show "wf_board (fst (fold (regenStep rnd) (p # ps) (b, k)))"
      unfolding step using ih by simp
  next
    fix i assume i: "i < length (p # ps)"
    show "cellAt (fst (fold (regenStep rnd) (p # ps) (b, k))) (fst ((p # ps) ! i)) (snd ((p # ps) ! i))
        = randomColour (rnd (k + i))"
    proof (cases i)
      case 0
      have "cellAt (fst (fold (regenStep rnd) ps (?b, k + 1))) r c = cellAt ?b r c"
        by (rule keep [OF wf])
      also have "\<dots> = randomColour (rnd k)"
        using cellAt_setCell [OF Cons.prems(3) ib ib] by simp
      finally show ?thesis unfolding step using 0 by (simp add: p)
    next
      case (Suc j)
      with i have "j < length ps" by simp
      with ih show ?thesis unfolding step using Suc by simp
    qed
  qed
qed

lemma board_cells_eqI:
  assumes "wf_board b" "wf_board b'"
    and "\<And>r c. in_bounds (r, c) \<Longrightarrow> cellAt b r c = cellAt b' r c"
  shows "b = b'"
proof (rule board_eqI [OF assms(1,2)])
  fix c :: int assume c: "0 \<le> c" "c < COLS"
  show "column b c = column b' c"
  proof (rule nth_equalityI)
    show "length (column b c) = length (column b' c)"
      using assms by (simp add: wf_board_length)
  next
    fix i assume "i < length (column b c)"
    then have i: "i < 6" using assms(1) by (simp add: wf_board_length)
    then have "in_bounds (int i, c)" using c by (simp add: in_bounds_def ROWS_def)
    from assms(3) [OF this] show "column b c ! i = column b' c ! i"
      using i assms(1,2) cellAt_column [of "int i" b c] cellAt_column [of "int i" b' c]
      by (simp add: wf_board_length)
  qed
qed

lemma upto_0_5: "[0..5] = [0, 1, 2, 3, 4, 5]"
  by code_simp

lemma wf_board_initBoard: "wf_board (fst (initBoard rnd k))"
  by (simp add: initBoard_def wf_board_def ROWS_def COLS_def)

lemma cellAt_initBoard:
  assumes "in_bounds (r, c)"
  shows "cellAt (fst (initBoard rnd k)) r c = randomColour (rnd (k + nat (r * 6 + c)))"
proof -
  from assms have b: "0 \<le> r" "r < 6" "0 \<le> c" "c < 6"
    by (simp_all add: in_bounds_def ROWS_def COLS_def)
  then have "nat r < length [0..5::int]" "nat c < length [0..5::int]" by simp_all
  moreover have "[0..5] ! nat r = r" "[0..5] ! nat c = c"
    using b by (simp_all add: nth_upto)
  ultimately show ?thesis
    by (simp add: initBoard_def cellAt_def ROWS_def COLS_def del: upto.simps)
qed

text \<open>Overwriting every cell of a 6 by 6 board in row-major order gives the board that
  \<open>initBoard\<close> builds from the same draws.\<close>

lemma regenerate_initBoard:
  assumes "wf_board b"
  shows "regenerate rnd (b, k) = initBoard rnd k"
proof -
  note f = regen_fold [OF distinct_allCells in_bounds_allCells assms, of rnd k]
  let ?b = "fst (regenerate rnd (b, k))"
  have "snd (regenerate rnd (b, k)) = k + 36"
    using f by (simp add: regenerate_def length_allCells)
  moreover have "?b = fst (initBoard rnd k)"
  proof (rule board_cells_eqI)
    show "wf_board ?b" using f by (simp add: regenerate_def)
    show "wf_board (fst (initBoard rnd k))" by (rule wf_board_initBoard)
  next
    fix r c assume ib: "in_bounds (r, c)"
    note n = allCells_nth [OF ib]
    from f n(1) have "cellAt ?b (fst (allCells ! nat (r * 6 + c))) (snd (allCells ! nat (r * 6 + c)))
        = randomColour (rnd (k + nat (r * 6 + c)))"
      by (simp add: regenerate_def length_allCells)
    then show "cellAt ?b r c = cellAt (fst (initBoard rnd k)) r c"
      by (simp add: n(2) cellAt_initBoard [OF ib])
  qed
  moreover have "snd (initBoard rnd k) = k + 36" by (simp add: initBoard_def ROWS_def COLS_def)
  ultimately show ?thesis by (simp add: prod_eq_iff)
qed

lemma full_boardI:
  assumes "wf_board b" "\<And>r c. in_bounds (r, c) \<Longrightarrow> cellAt b r c \<noteq> None"
  shows "full_board b"
  unfolding full_board_def
proof (intro conjI ballI)
  show "wf_board b" by fact
next
  fix row x assume "row \<in> set b" "x \<in> set row"
  then obtain i j where i: "i < length b" "row = b ! i" and j: "j < length row" "x = row ! j"
    by (auto simp: in_set_conv_nth)
  have i6: "i < 6" using i assms(1) by (simp add: wf_board_length)
  then have "j < 6" using j i assms(1) by (simp add: wf_board_row)
  with i6 have "in_bounds (int i, int j)" by (simp add: in_bounds_def ROWS_def COLS_def)
  from assms(2) [OF this] show "x \<noteq> None" using i j by (simp add: cellAt_def)
qed

lemma full_board_initBoard: "unit_draws rnd \<Longrightarrow> full_board (fst (initBoard rnd k))"
  by (intro full_boardI wf_board_initBoard)
     (simp add: cellAt_initBoard randomColour_Some unit_draws_def)

lemma full_board_wf: "full_board b \<Longrightarrow> wf_board b"
  by (simp add: full_board_def)

subsection \<open>The loop\<close>

lemma shuffleLoop_result:
  assumes "wf_board b" "unit_draws rnd" "attempts \<le> 50"
  shows "case shuffleLoop rnd b k attempts of
           (b', k', n) \<Rightarrow> attempts < n \<and> n \<le> 51 \<and> k' = k + 36 * (n - attempts)
              \<and> full_board b' \<and> (n \<le> 50 \<longrightarrow> hasAvailableMoves b')"
  using assms
proof (induction rnd b k attempts rule: shuffleLoop.induct)
  case (1 rnd b k attempts)
  let ?b = "fst (initBoard rnd k)"
  have r: "regenerate rnd (b, k) = (?b, k + 36)"
    using regenerate_initBoard [OF "1.prems"(1), of rnd k]
    by (simp add: initBoard_def ROWS_def COLS_def)
  have fb: "full_board ?b" using "1.prems"(2) by (rule full_board_initBoard)
  show ?case
  proof (cases "attempts + 1 > 50")
    case True
    then have "shuffleLoop rnd b k attempts = (?b, k + 36, attempts + 1)"
      by (subst shuffleLoop.simps) (simp add: r Let_def)
    with True "1.prems"(3) fb show ?thesis by simp
  next
    case False
    show ?thesis
    proof (cases "hasAvailableMoves ?b")
      case True
      with False have "shuffleLoop rnd b k attempts = (?b, k + 36, attempts + 1)"
        by (subst shuffleLoop.simps) (simp add: r Let_def)
      with True fb False show ?thesis by simp
    next
      case nm: False
      with False have eq: "shuffleLoop rnd b k attempts = shuffleLoop rnd ?b (k + 36) (attempts + 1)"
        by (subst shuffleLoop.simps) (simp add: r Let_def)
      have "case shuffleLoop rnd ?b (k + 36) (attempts + 1) of
           (b', k', n) \<Rightarrow> attempts + 1 < n \<and> n \<le> 51 \<and> k' = k + 36 + 36 * (n - (attempts + 1))
              \<and> full_board b' \<and> (n \<le> 50 \<longrightarrow> hasAvailableMoves b')"
        using False nm "1.prems"(2) full_board_wf [OF fb]
        by (intro "1.IH" [OF r [symmetric] refl]) simp_all
      then show ?thesis unfolding eq by (auto simp: algebra_simps)
    qed
  qed
qed

lemma unit_draws_checkerRandom: "unit_draws checkerRandom"
  by (simp add: unit_draws_def checkerRandom_def)

lemma checkerRandom_period: "checkerRandom (36 * j + n) = checkerRandom n"
proof -
  have "(36 * j + n) div 6 = 6 * j + n div 6" by simp
  then have "even (36 * j + n + (36 * j + n) div 6) = even (n + n div 6)" by simp
  then show ?thesis by (simp only: checkerRandom_def)
qed

lemma initBoard_checkerRandom: "fst (initBoard checkerRandom (36 * j)) = checkerBoard"
proof -
  have "fst (initBoard checkerRandom (36 * j)) = fst (initBoard checkerRandom 0)"
    by (simp add: initBoard_def checkerRandom_period)
  also have "\<dots> = checkerBoard" by code_simp
  finally show ?thesis .
qed

lemma no_moves_checkerBoard: "\<not> hasAvailableMoves checkerBoard"
  by code_simp

lemma wf_checkerBoard: "wf_board checkerBoard"
  by (simp add: wf_board_def checkerBoard_def ROWS_def COLS_def)

lemma shuffleLoop_checkerRandom:
  assumes "wf_board b" "j \<le> 50"
  shows "shuffleLoop checkerRandom b (36 * j) j = (checkerBoard, 1836, 51)"
  using assms
proof (induction "50 - j" arbitrary: j b)
  case 0
  then have j: "j = 50" by simp
  have r: "regenerate checkerRandom (b, 1800) = (checkerBoard, 1836)"
    using regenerate_initBoard [OF "0.prems"(1), of checkerRandom "36 * 50"] initBoard_checkerRandom [of 50]
    by (simp add: initBoard_def ROWS_def COLS_def prod_eq_iff)
  show ?case
    unfolding j by (subst shuffleLoop.simps) (simp add: r Let_def)
next
  case (Suc d)
  then have j: "j < 50" "d = 50 - (j + 1)" "j + 1 \<le> 50" by simp_all
  have r: "regenerate checkerRandom (b, 36 * j) = (checkerBoard, 36 * (j + 1))"
    using regenerate_initBoard [OF Suc.prems(1), of checkerRandom "36 * j"] initBoard_checkerRandom [of j]
    by (simp add: initBoard_def ROWS_def COLS_def prod_eq_iff)
  have "shuffleLoop checkerRandom b (36 * j) j = shuffleLoop checkerRandom checkerBoard (36 * (j + 1)) (j + 1)"
    using j(1) by (subst shuffleLoop.simps) (simp add: r Let_def no_moves_checkerBoard)
  also have "\<dots> = (checkerBoard, 1836, 51)"
    by (rule Suc.hyps(1) [OF j(2) wf_checkerBoard j(3)])
  finally show ?case .
qed

lemma shuffleBoard_checkerRandom:
  "shuffleBoard checkerRandom (exampleBoard, 0) = (checkerBoard, 1836, 51)"
  using shuffleLoop_checkerRandom [OF wf_exampleBoard, of 0] by (simp add: shuffleBoard_def)

text \<open>
  Claim C4 bounds \<open>shuffleBoard\<close> by 50 regenerations of the board. The loop tests
  \<open>attempts > 50\<close> after the increment: when none of the first fifty boards has a
  move, it regenerates a fifty-first time and leaves with that board. The checkerboard
  source makes it do so.
\<close>

theorem shuffleBoard_51_counterexample:
  "wf_board exampleBoard \<and> unit_draws checkerRandom
   \<and> snd (snd (shuffleBoard checkerRandom (exampleBoard, 0))) = 51
   \<and> fst (snd (shuffleBoard checkerRandom (exampleBoard, 0))) = 51 * 36
   \<and> \<not> snd (snd (shuffleBoard checkerRandom (exampleBoard, 0))) \<le> 50"
  by (simp add: shuffleBoard_checkerRandom wf_exampleBoard unit_draws_checkerRandom)

text \<open>
  Claim C4, amended. \<open>shuffleBoard\<close> always returns (\<open>shuffleLoop\<close> is a total function,
  its recursion is bounded by \<open>51 - attempts\<close>), after at least one and at most 51
  regenerations of the whole board, of 36 draws each; every cell of the board it leaves
  holds a colour of the palette, whether or not a board with a move was found; and
  when it leaves after fifty regenerations or fewer, the board has a move.
\<close>

theorem shuffleBoard_terminates_populated:
  assumes "wf_board b" "unit_draws rnd"
  shows "case shuffleBoard rnd (b, k) of
           (b', k', n) \<Rightarrow> 1 \<le> n \<and> n \<le> 51 \<and> k' = k + 36 * n
              \<and> full_board b' \<and> (n \<le> 50 \<longrightarrow> hasAvailableMoves b')"
  using shuffleLoop_result [OF assms, of 0 k]
  by (auto simp: shuffleBoard_def)

theorem shuffleBoard_terminates_populated_witness:
  "wf_board exampleBoard \<and> unit_draws checkerRandom
   \<and> shuffleBoard checkerRandom (exampleBoard, 0) = (checkerBoard, 1836, 51)
   \<and> full_board checkerBoard
   \<and> wf_board exampleHoles \<and> unit_draws noRandom
   \<and> snd (snd (shuffleBoard noRandom (exampleHoles, 7))) = 1
   \<and> snd (shuffleBoard noRandom (exampleHoles, 7)) = (43, 1)
   \<and> full_board (fst (shuffleBoard noRandom (exampleHoles, 7)))
   \<and> hasAvailableMoves (fst (shuffleBoard noRandom (exampleHoles, 7)))"
proof -
  have w: "wf_board exampleHoles"
    by (simp add: wf_board_def exampleHoles_def ROWS_def COLS_def)
  have u: "unit_draws noRandom" by (simp add: unit_draws_def noRandom_def)
  have n: "snd (snd (shuffleBoard noRandom (exampleHoles, 7))) = 1"
    by code_simp
  from shuffleBoard_terminates_populated [OF wf_exampleBoard unit_draws_checkerRandom, of 0]
  have a: "full_board checkerBoard" by (simp add: shuffleBoard_checkerRandom)
  from shuffleBoard_terminates_populated [OF w u, of 7] n
  have b: "snd (shuffleBoard noRandom (exampleHoles, 7)) = (43, 1)"
    "full_board (fst (shuffleBoard noRandom (exampleHoles, 7)))"
    "hasAvailableMoves (fst (shuffleBoard noRandom (exampleHoles, 7)))"
    by (auto split: prod.splits)
  from a b n w u show ?thesis
    by (simp add: shuffleBoard_checkerRandom wf_exampleBoard unit_draws_checkerRandom)
qed

section \<open>Flood fill theorems\<close>

subsection \<open>Components\<close>

lemma sym_same_adjacent: "sym (same_adjacent b)"
  by (auto simp: sym_def same_adjacent_def adjacent_def)

lemma component_self: "p \<in> component b p"
  by (simp add: component_def)

lemma component_step: "p \<in> component b s \<Longrightarrow> (p, q) \<in> same_adjacent b \<Longrightarrow> q \<in> component b s"
  by (auto simp: component_def intro: rtrancl_into_rtrancl)

lemma component_in_bounds: "in_bounds s \<Longrightarrow> q \<in> component b s \<Longrightarrow> in_bounds q"
proof -
  assume s: "in_bounds s" and "q \<in> component b s"
  then have "(s, q) \<in> (same_adjacent b)\<^sup>*" by (simp add: component_def)
  then show ?thesis using s by (induction rule: rtrancl_induct) (auto simp: same_adjacent_def)
qed

lemma component_colour:
  "q \<in> component b s \<Longrightarrow> cellAt b (fst q) (snd q) = cellAt b (fst s) (snd s)"
proof -
  assume "q \<in> component b s"
  then have "(s, q) \<in> (same_adjacent b)\<^sup>*" by (simp add: component_def)
  then show ?thesis by (induction rule: rtrancl_induct) (auto simp: same_adjacent_def)
qed

lemma component_eq: "q \<in> component b s \<Longrightarrow> component b q = component b s"
proof -
  assume "q \<in> component b s"
  then have sq: "(s, q) \<in> (same_adjacent b)\<^sup>*" by (simp add: component_def)
  then have qs: "(q, s) \<in> (same_adjacent b)\<^sup>*"
    using sym_same_adjacent [of b] by (simp add: sym_rtrancl symD)
  show ?thesis
    unfolding component_def using sq qs by (auto intro: rtrancl_trans)
qed

lemma finite_component: "in_bounds s \<Longrightarrow> finite (component b s)"
proof -
  assume "in_bounds s"
  then have "component b s \<subseteq> {p. in_bounds p}" by (auto dest: component_in_bounds)
  then show ?thesis using finite_in_bounds by (rule finite_subset)
qed

lemma component_isolated:
  assumes "\<And>q. (p, q) \<notin> same_adjacent b"
  shows "component b p = {p}"
proof -
  have "q = p" if "(p, q) \<in> (same_adjacent b)\<^sup>*" for q
    using that assms by (induction rule: rtrancl_induct) auto
  then show ?thesis by (auto simp: component_def)
qed

lemma three_in_a_row:
  assumes "in_bounds p" "in_bounds q" "in_bounds r" "adjacent p q" "adjacent q r" "p \<noteq> r"
    and "cellAt b (fst p) (snd p) = cellAt b (fst q) (snd q)"
    and "cellAt b (fst q) (snd q) = cellAt b (fst r) (snd r)"
  shows "has_component3 b"
proof -
  have pq: "(p, q) \<in> same_adjacent b" and qr: "(q, r) \<in> same_adjacent b"
    using assms by (simp_all add: same_adjacent_def)
  have q: "q \<in> component b p" using component_step [OF component_self pq] .
  have r: "r \<in> component b p" using component_step [OF q qr] .
  have ne: "p \<noteq> q" "q \<noteq> r" using assms(4,5) by (auto simp: adjacent_def)
  have "{p, q, r} \<subseteq> component b p" using q r component_self [of p b] by simp
  then have "card {p, q, r} \<le> card (component b p)"
    using finite_component [OF assms(1)] by (intro card_mono)
  moreover have "card {p, q, r} = 3" using ne assms(6) by simp
  ultimately have "3 \<le> card (component b p)" by simp
  with assms(1) show ?thesis unfolding has_component3_def by blast
qed

lemma adjacent_dirs:
  "adjacent p q \<longleftrightarrow> (\<exists>d \<in> set dirs. q = (fst p + fst d, snd p + snd d))"
proof -
  obtain r c where p: "p = (r, c)" by (cases p)
  obtain r' c' where q: "q = (r', c')" by (cases q)
  show ?thesis unfolding p q adjacent_def dirs_def by (simp add: abs_if) presburger
qed

lemma adjacent_parity: "adjacent (r, c) (r', c') \<Longrightarrow> even (r + c) \<noteq> even (r' + c')"
  unfolding adjacent_def by (simp add: abs_if split: if_splits) presburger+

subsection \<open>One round of the inner loop\<close>

lemma visit_fresh:
  "visit b colour rr cc d (V, Q) =
     (V \<union> set (fresh b colour V rr cc [d]), Q @ fresh b colour V rr cc [d])"
  by (cases d) (auto simp: visit_def fresh_def Let_def in_bounds_def)

lemma fold_visit_fresh:
  assumes "distinct ds"
  shows "fold (visit b colour rr cc) ds (V, Q) =
     (V \<union> set (fresh b colour V rr cc ds), Q @ fresh b colour V rr cc ds)"
  using assms
proof (induction ds arbitrary: V Q)
  case Nil
  then show ?case by (simp add: fresh_def)
next
  case (Cons d ds)
  let ?n = "(rr + fst d, cc + snd d)"
  let ?V = "V \<union> set (fresh b colour V rr cc [d])"
  have notin: "?n \<notin> set (map (\<lambda>d. (rr + fst d, cc + snd d)) ds)"
    using Cons.prems by (auto simp: prod_eq_iff)
  have "fresh b colour ?V rr cc ds = fresh b colour V rr cc ds"
    unfolding fresh_def using notin
    by (intro filter_cong refl) (auto simp: fresh_def)
  moreover have "fresh b colour V rr cc (d # ds) = fresh b colour V rr cc [d] @ fresh b colour V rr cc ds"
    by (simp add: fresh_def)
  moreover have "fold (visit b colour rr cc) (d # ds) (V, Q)
      = fold (visit b colour rr cc) ds (?V, Q @ fresh b colour V rr cc [d])"
    by (simp add: visit_fresh)
  ultimately show ?case using Cons.IH [of ?V "Q @ fresh b colour V rr cc [d]"] Cons.prems
    by (simp add: Un_assoc)
qed

lemma distinct_fresh: "distinct ds \<Longrightarrow> distinct (fresh b colour V rr cc ds)"
  unfolding fresh_def
  by (intro distinct_filter) (auto simp: distinct_map inj_on_def prod_eq_iff)

lemma set_fresh_dirs:
  "set (fresh b colour V rr cc dirs) =
     {n. adjacent (rr, cc) n \<and> in_bounds n \<and> n \<notin> V \<and> cellAt b (fst n) (snd n) = colour}"
  by (auto simp: fresh_def adjacent_dirs)

lemma distinct_dirs: "distinct dirs"
  by (simp add: dirs_def)

subsection \<open>One flood fill\<close>

lemma bfs_inv_done:
  assumes "bfs_inv b s V0 [] V cnt" "V0 \<inter> component b s = {}"
  shows "V = V0 \<union> component b s" "cnt = card (component b s)"
proof -
  from assms(1) have i: "V0 \<subseteq> V" "V - V0 \<subseteq> component b s" "s \<in> V" "cnt = card (V - V0)"
    and closed: "\<And>p q. p \<in> V - V0 \<Longrightarrow> (p, q) \<in> same_adjacent b \<Longrightarrow> q \<in> V"
    by (auto simp: bfs_inv_def)
  have "q \<in> V - V0" if "q \<in> component b s" for q
  proof -
    from that have "(s, q) \<in> (same_adjacent b)\<^sup>*" by (simp add: component_def)
    then show ?thesis
    proof (induction rule: rtrancl_induct)
      case base
      show ?case using i(3) assms(2) component_self [of s b] by auto
    next
      case (step y z)
      then have "z \<in> component b s" by (auto simp: component_def intro: rtrancl_into_rtrancl)
      moreover have "z \<in> V" using closed [OF step.IH step.hyps(2)] .
      ultimately show ?case using assms(2) by auto
    qed
  qed
  with i(2) have eq: "V - V0 = component b s" by auto
  then show "V = V0 \<union> component b s" using i(1) by auto
  show "cnt = card (component b s)" using i(4) eq by simp
qed

lemma bfs_inv_step:
  assumes inv: "bfs_inv b s V0 ((rr, cc) # Q) V cnt"
    and s: "in_bounds s" and disj: "V0 \<inter> component b s = {}"
    and col: "colour = cellAt b (fst s) (snd s)"
  shows "bfs_inv b s V0 (Q @ fresh b colour V rr cc dirs) (V \<union> set (fresh b colour V rr cc dirs)) (cnt + 1)"
proof -
  let ?C = "component b s"
  let ?ns = "fresh b colour V rr cc dirs"
  let ?N = "set ?ns"
  from inv have i: "V0 \<subseteq> V" "V - V0 \<subseteq> ?C" "s \<in> V" "(rr, cc) \<in> V - V0" "set Q \<subseteq> V - V0"
    "(rr, cc) \<notin> set Q" "distinct Q" "cnt + (length Q + 1) = card (V - V0)"
    and cl: "\<forall>p \<in> (V - V0) - set ((rr, cc) # Q). \<forall>q. (p, q) \<in> same_adjacent b \<longrightarrow> q \<in> V"
    by (simp_all add: bfs_inv_def)
  have closed: "q \<in> V"
    if "p \<in> V - V0" "p \<noteq> (rr, cc)" "p \<notin> set Q" "(p, q) \<in> same_adjacent b" for p q
  proof -
    from that have "p \<in> (V - V0) - set ((rr, cc) # Q)" by simp
    with cl that(4) show ?thesis by blast
  qed
  have pc: "(rr, cc) \<in> ?C" using i(2,4) by auto
  have pb: "in_bounds (rr, cc)" using component_in_bounds [OF s pc] .
  have pcol: "cellAt b rr cc = colour" using component_colour [OF pc] col by simp
  have N: "?N = {n. adjacent (rr, cc) n \<and> in_bounds n \<and> n \<notin> V \<and> cellAt b (fst n) (snd n) = colour}"
    by (rule set_fresh_dirs)
  have Nadj: "((rr, cc), n) \<in> same_adjacent b" if "n \<in> ?N" for n
    using that pb pcol by (simp add: N same_adjacent_def)
  have NC: "?N \<subseteq> ?C" using Nadj component_step [OF pc] by auto
  have NV: "?N \<inter> V = {}" by (auto simp: N)
  have NV0: "?N \<inter> V0 = {}" using NC disj by auto
  have fin: "finite (V - V0)" using finite_component [OF s] i(2) by (rule finite_subset [rotated])
  have dn: "distinct ?ns" by (rule distinct_fresh [OF distinct_dirs])
  have card: "card ((V \<union> ?N) - V0) = card (V - V0) + length ?ns"
  proof -
    have "(V \<union> ?N) - V0 = (V - V0) \<union> ?N" using NV0 by auto
    moreover have "(V - V0) \<inter> ?N = {}" using NV by auto
    ultimately have "card ((V \<union> ?N) - V0) = card (V - V0) + card ?N"
      using fin by (simp add: card_Un_disjoint)
    then show ?thesis using dn by (simp add: distinct_card)
  qed
  show ?thesis
    unfolding bfs_inv_def
  proof (intro conjI ballI allI impI)
    show "V0 \<subseteq> V \<union> ?N" using i(1) by auto
    show "V \<union> ?N - V0 \<subseteq> ?C" using i(2) NC by auto
    show "s \<in> V \<union> ?N" using i(3) by simp
    show "set (Q @ ?ns) \<subseteq> V \<union> ?N - V0" using i(5) NV0 by auto
    show "distinct (Q @ ?ns)" using i(5,7) dn NV by auto
    show "cnt + 1 + length (Q @ ?ns) = card (V \<union> ?N - V0)" using i(8) card by simp
  next
    fix p q assume p: "p \<in> V \<union> ?N - V0 - set (Q @ ?ns)" and e: "(p, q) \<in> same_adjacent b"
    from p have pV: "p \<in> V - V0" "p \<notin> set Q" by auto
    show "q \<in> V \<union> ?N"
    proof (cases "p = (rr, cc)")
      case True
      with e pcol have "adjacent (rr, cc) q" "in_bounds q" "cellAt b (fst q) (snd q) = colour"
        by (auto simp: same_adjacent_def)
      then show ?thesis by (auto simp: N)
    next
      case False
      from closed [OF pV(1) False pV(2) e] show ?thesis by simp
    qed
  qed
qed

lemma bfs_correct:
  assumes "bfs_inv b s V0 Q V cnt" "in_bounds s" "V0 \<inter> component b s = {}"
    "colour = cellAt b (fst s) (snd s)"
  shows "bfs b colour Q V cnt = (V0 \<union> component b s, card (component b s))"
  using assms
proof (induction b colour Q V cnt rule: bfs.induct)
  case (1 b colour visited count)
  from bfs_inv_done [OF "1.prems"(1,3)] show ?case by simp
next
  case (2 b colour rr cc queue visited count)
  let ?ns = "fresh b colour visited rr cc dirs"
  have f: "fold (visit b colour rr cc) dirs (visited, queue) = (visited \<union> set ?ns, queue @ ?ns)"
    by (rule fold_visit_fresh [OF distinct_dirs])
  have "bfs b colour (queue @ ?ns) (visited \<union> set ?ns) (count + 1)
      = (V0 \<union> component b s, card (component b s))"
    using bfs_inv_step [OF "2.prems"(1,2,3,4)] "2.prems"(2,3,4)
    by (intro "2.IH" [OF f [symmetric]])
  then show ?case by (simp add: f)
qed

lemma bfs_start:
  assumes "in_bounds (r, c)" "V \<inter> component b (r, c) = {}"
  shows "bfs b (cellAt b r c) [(r, c)] (insert (r, c) V) 0
       = (V \<union> component b (r, c), card (component b (r, c)))"
proof -
  have "insert (r, c) V - V = {(r, c)}"
    using assms(2) component_self [of "(r, c)" b] by auto
  then have "bfs_inv b (r, c) V [(r, c)] (insert (r, c) V) 0"
    using component_self [of "(r, c)" b] by (auto simp: bfs_inv_def)
  from bfs_correct [OF this assms] show ?thesis by simp
qed

subsection \<open>The scan\<close>

text \<open>The marked set is always a union of whole components, so a fill from an unmarked
  cell counts exactly its component.\<close>

lemma scan_correct:
  assumes "\<forall>p \<in> set ps. in_bounds p"
    and "\<forall>p. in_bounds p \<and> p \<notin> V \<longrightarrow> p \<in> set ps"
    and "\<forall>p \<in> V. component b p \<subseteq> V"
  shows "scan b ps V \<longleftrightarrow> (\<exists>p. in_bounds p \<and> p \<notin> V \<and> 3 \<le> card (component b p))"
  using assms
proof (induction ps arbitrary: V)
  case Nil
  then show ?case by auto
next
  case (Cons a ps)
  obtain r c where a: "a = (r, c)" by (cases a)
  let ?C = "component b (r, c)"
  have ib: "in_bounds (r, c)" using Cons.prems(1) a by simp
  show ?case
  proof (cases "(r, c) \<in> V")
    case True
    have "\<forall>p. in_bounds p \<and> p \<notin> V \<longrightarrow> p \<in> set ps"
      using Cons.prems(2) True a by auto
    with Cons.IH [of V] Cons.prems True show ?thesis by (simp add: a)
  next
    case False
    have disj: "V \<inter> ?C = {}"
    proof (rule ccontr)
      assume "V \<inter> ?C \<noteq> {}"
      then obtain q where q: "q \<in> V" "q \<in> ?C" by auto
      then have "component b q \<subseteq> V" using Cons.prems(3) by simp
      then have "?C \<subseteq> V" using component_eq [OF q(2)] by simp
      with component_self [of "(r, c)" b] False show False by auto
    qed
    note bs = bfs_start [OF ib disj]
    show ?thesis
    proof (cases "3 \<le> card ?C")
      case True
      then have "scan b (a # ps) V" using False by (simp add: a bs del: bfs.simps)
      moreover have "\<exists>p. in_bounds p \<and> p \<notin> V \<and> 3 \<le> card (component b p)"
        using ib False True by blast
      ultimately show ?thesis by simp
    next
      case small: False
      let ?V = "V \<union> ?C"
      have s: "scan b (a # ps) V = scan b ps ?V"
        using False small by (simp add: a bs del: bfs.simps)
      have 1: "\<forall>p \<in> set ps. in_bounds p" using Cons.prems(1) by simp
      have 2: "\<forall>p. in_bounds p \<and> p \<notin> ?V \<longrightarrow> p \<in> set ps"
        using Cons.prems(2) a component_self [of "(r, c)" b] by auto
      have 3: "\<forall>p \<in> ?V. component b p \<subseteq> ?V"
        using Cons.prems(3) component_eq [of _ b "(r, c)"] by auto
      have "p \<notin> ?C" if "3 \<le> card (component b p)" for p
        using small that component_eq [of p b "(r, c)"] by auto
      then have "(\<exists>p. in_bounds p \<and> p \<notin> ?V \<and> 3 \<le> card (component b p))
          \<longleftrightarrow> (\<exists>p. in_bounds p \<and> p \<notin> V \<and> 3 \<le> card (component b p))"
        by blast
      with Cons.IH [OF 1 2 3] s show ?thesis by simp
    qed
  qed
qed

lemma in_bounds_iff_allCells: "in_bounds p \<longleftrightarrow> p \<in> set allCells"
proof
  assume "in_bounds p"
  then have "in_bounds (fst p, snd p)" by simp
  from allCells_nth [OF this] show "p \<in> set allCells"
    by (metis length_allCells nth_mem prod.collapse)
next
  assume "p \<in> set allCells"
  then show "in_bounds p" using in_bounds_allCells by simp
qed

lemma hasAvailableMoves_iff: "hasAvailableMoves b \<longleftrightarrow> has_component3 b"
  unfolding hasAvailableMoves_def has_component3_def
  using scan_correct [of allCells "{}" b] by (simp add: in_bounds_iff_allCells)

subsection \<open>The named boards\<close>

lemma cellAt_uniformBoard: "in_bounds (r, c) \<Longrightarrow> cellAt (uniformBoard col) r c = Some col"
proof -
  assume "in_bounds (r, c)"
  then have "nat r < 6" "nat c < 6" by (auto simp: in_bounds_def ROWS_def COLS_def)
  then show ?thesis by (simp add: cellAt_def uniformBoard_def)
qed

lemma cellAt_checkerboard:
  assumes "in_bounds (r, c)"
  shows "cellAt (checkerboard c1 c2) r c = (if even (r + c) then Some c1 else Some c2)"
proof -
  from assms have b: "0 \<le> r" "r < 6" "0 \<le> c" "c < 6"
    by (simp_all add: in_bounds_def ROWS_def COLS_def)
  then have "nat r < length [0..5::int]" "nat c < length [0..5::int]" by simp_all
  moreover have "[0..5] ! nat r = r" "[0..5] ! nat c = c"
    using b by (simp_all add: nth_upto)
  ultimately show ?thesis
    by (simp add: checkerboard_def cellAt_def ROWS_def COLS_def del: upto.simps)
qed

lemma full_board_uniformBoard: "full_board (uniformBoard col)"
  by (simp add: full_board_def wf_board_def uniformBoard_def ROWS_def COLS_def)

lemma full_board_checkerboard: "full_board (checkerboard c1 c2)"
  by (auto simp: full_board_def wf_board_def checkerboard_def ROWS_def COLS_def)

text \<open>
  Claim C2. On every 6 by 6 board whose cells all hold a colour, \<open>hasAvailableMoves\<close>
  returns true exactly when some 4-connected component of equal colours has three
  cells or more. It returns true on every board of a single colour and false on every
  checkerboard of two different colours.
\<close>

theorem hasAvailableMoves_iff_component3:
  "(full_board b \<longrightarrow> (hasAvailableMoves b \<longleftrightarrow> has_component3 b))
   \<and> hasAvailableMoves (uniformBoard col)
   \<and> (c1 \<noteq> c2 \<longrightarrow> \<not> hasAvailableMoves (checkerboard c1 c2))"
proof (intro conjI impI)
  show "hasAvailableMoves b \<longleftrightarrow> has_component3 b" by (rule hasAvailableMoves_iff)
next
  have i: "in_bounds (0, 0)" "in_bounds (0, 1)" "in_bounds (0, 2)"
    by (simp_all add: in_bounds_def ROWS_def COLS_def)
  have "has_component3 (uniformBoard col)"
    by (rule three_in_a_row [OF i]) (simp_all add: adjacent_def cellAt_uniformBoard i)
  then show "hasAvailableMoves (uniformBoard col)" by (simp add: hasAvailableMoves_iff)
next
  assume ne: "c1 \<noteq> c2"
  have "(p, q) \<notin> same_adjacent (checkerboard c1 c2)" for p q
  proof
    assume a: "(p, q) \<in> same_adjacent (checkerboard c1 c2)"
    obtain r c where p: "p = (r, c)" by (cases p)
    obtain r' c' where q: "q = (r', c')" by (cases q)
    from a have "in_bounds (r, c)" "in_bounds (r', c')" "adjacent (r, c) (r', c')"
      "cellAt (checkerboard c1 c2) r c = cellAt (checkerboard c1 c2) r' c'"
      by (simp_all add: same_adjacent_def p q)
    then show False
      using adjacent_parity [of r c r' c'] ne
      by (simp add: cellAt_checkerboard split: if_splits)
  qed
  then have "component (checkerboard c1 c2) p = {p}" for p
    by (rule component_isolated)
  then have "\<not> has_component3 (checkerboard c1 c2)" by (simp add: has_component3_def)
  then show "\<not> hasAvailableMoves (checkerboard c1 c2)" by (simp add: hasAvailableMoves_iff)
qed

theorem hasAvailableMoves_iff_component3_witness:
  "full_board exampleBoard \<and> hasAvailableMoves exampleBoard \<and> has_component3 exampleBoard
   \<and> full_board checkerBoard \<and> \<not> hasAvailableMoves checkerBoard \<and> \<not> has_component3 checkerBoard
   \<and> hasAvailableMoves (uniformBoard Green)
   \<and> Red \<noteq> Yellow \<and> checkerboard Red Yellow = checkerBoard
   \<and> \<not> hasAvailableMoves (checkerboard Red Yellow)"
proof -
  have f: "full_board exampleBoard" "full_board checkerBoard" by code_simp+
  have h: "hasAvailableMoves exampleBoard" by code_simp
  have c: "checkerboard Red Yellow = checkerBoard" by code_simp
  from hasAvailableMoves_iff_component3 [of exampleBoard Green Red Yellow]
    hasAvailableMoves_iff_component3 [of checkerBoard Green Red Yellow] f h c
  show ?thesis by simp
qed

lemma cellAt_map:
  assumes "wf_board b" "in_bounds (r, c)"
  shows "cellAt (map (map f) b) r c = f (cellAt b r c)"
proof -
  from assms have r: "nat r < length b" by (auto simp: wf_board_def in_bounds_def)
  then have "b ! nat r \<in> set b" by simp
  with assms have "nat c < length (b ! nat r)" by (auto simp: wf_board_def in_bounds_def)
  with r show ?thesis by (simp add: cellAt_def)
qed

lemma same_adjacent_map:
  assumes "wf_board b" "inj f"
  shows "same_adjacent (map (map f) b) = same_adjacent b"
proof -
  have "cellAt (map (map f) b) (fst p) (snd p) = cellAt (map (map f) b) (fst q) (snd q)
        \<longleftrightarrow> cellAt b (fst p) (snd p) = cellAt b (fst q) (snd q)"
    if "in_bounds p" "in_bounds q" for p q
    using that assms cellAt_map [of b "fst p" "snd p" f] cellAt_map [of b "fst q" "snd q" f]
    by (auto dest: injD)
  then show ?thesis unfolding same_adjacent_def by auto
qed

lemma has_component3_map:
  "wf_board b \<Longrightarrow> inj f \<Longrightarrow> has_component3 (map (map f) b) \<longleftrightarrow> has_component3 b"
  by (simp add: has_component3_def component_def same_adjacent_map)

lemma inj_swapEmpty: "inj (swapEmpty col)"
  by (auto simp: inj_def swapEmpty_def split: if_splits)

lemma no_tile_edges_gapBoard:
  "\<forall>p \<in> set allCells. \<forall>q \<in> set allCells.
     cellAt gapBoard (fst p) (snd p) \<noteq> None \<and> adjacent p q
     \<longrightarrow> cellAt gapBoard (fst p) (snd p) \<noteq> cellAt gapBoard (fst q) (snd q)"
  by code_simp

lemma no_tile_component3_gapBoard: "\<not> tile_component3 gapBoard"
proof
  assume "tile_component3 gapBoard"
  then obtain p where p: "in_bounds p" "cellAt gapBoard (fst p) (snd p) \<noteq> None"
    "3 \<le> card (component gapBoard p)"
    by (auto simp: tile_component3_def)
  have "(p, q) \<notin> same_adjacent gapBoard" for q
    using no_tile_edges_gapBoard p(1,2)
    by (auto simp: same_adjacent_def in_bounds_iff_allCells)
  then have "component gapBoard p = {p}" by (rule component_isolated)
  with p(3) show False by simp
qed

lemma two_empties_pairBoard: "\<not> hasAvailableMoves pairBoard"
  by code_simp

lemma gapBoard_swapped:
  "map (map (swapEmpty Green)) gapBoard =
     [[Some Green, Some Green, Some Green, Some Yellow, Some Red, Some Yellow],
      [Some Yellow, Some Red, Some Yellow, Some Red, Some Yellow, Some Red],
      [Some Red, Some Yellow, Some Red, Some Yellow, Some Red, Some Yellow],
      [Some Yellow, Some Red, Some Yellow, Some Red, Some Yellow, Some Red],
      [Some Red, Some Yellow, Some Red, Some Yellow, Some Red, Some Yellow],
      [Some Yellow, Some Red, Some Yellow, Some Red, Some Yellow, Some Red]]"
  by (simp add: gapBoard_def swapEmpty_def)

text \<open>
  Claim C10. \<open>hasAvailableMoves\<close> compares cells with \<open>===\<close>, and \<open>null === null\<close>: an
  empty cell is a cell value like the five colours. On every board, fully populated
  or not, the function returns true exactly when some 4-connected component of cells
  of equal value, empty or coloured, has three cells or more. So three empty cells in
  a 4-connected group (\<open>p\<close> next to \<open>q\<close>, \<open>q\<close> next to \<open>r\<close>) make it return true,
  whatever the tiles are; and on a 6 by 6 board the answer does not change when the
  cell values are renamed one to one, the empty cell like any colour. On \<open>gapBoard\<close>
  no tile has a neighbour of its colour and the answer is true; on \<open>pairBoard\<close>, with
  two empty cells only, it is false.
\<close>

theorem hasAvailableMoves_empty_is_a_colour:
  "(hasAvailableMoves b \<longleftrightarrow> has_component3 b)
   \<and> (in_bounds p \<and> in_bounds q \<and> in_bounds r \<and> adjacent p q \<and> adjacent q r \<and> p \<noteq> r
        \<and> cellAt b (fst p) (snd p) = None \<and> cellAt b (fst q) (snd q) = None
        \<and> cellAt b (fst r) (snd r) = None
      \<longrightarrow> hasAvailableMoves b)
   \<and> (wf_board b \<and> inj f \<longrightarrow> (hasAvailableMoves (map (map f) b) \<longleftrightarrow> hasAvailableMoves b))"
proof (intro conjI impI)
  show "hasAvailableMoves b \<longleftrightarrow> has_component3 b" by (rule hasAvailableMoves_iff)
next
  assume a: "in_bounds p \<and> in_bounds q \<and> in_bounds r \<and> adjacent p q \<and> adjacent q r \<and> p \<noteq> r
        \<and> cellAt b (fst p) (snd p) = None \<and> cellAt b (fst q) (snd q) = None
        \<and> cellAt b (fst r) (snd r) = None"
  then have "has_component3 b"
    by (intro three_in_a_row [of p q r]) simp_all
  then show "hasAvailableMoves b" by (simp add: hasAvailableMoves_iff)
next
  assume "wf_board b \<and> inj f"
  then show "hasAvailableMoves (map (map f) b) \<longleftrightarrow> hasAvailableMoves b"
    by (simp add: hasAvailableMoves_iff has_component3_map)
qed

theorem hasAvailableMoves_empty_is_a_colour_witness:
  "in_bounds (0, 0) \<and> in_bounds (0, 1) \<and> in_bounds (0, 2)
   \<and> adjacent (0, 0) (0, 1) \<and> adjacent (0, 1) (0, 2)
   \<and> cellAt gapBoard 0 0 = None \<and> cellAt gapBoard 0 1 = None \<and> cellAt gapBoard 0 2 = None
   \<and> \<not> tile_component3 gapBoard
   \<and> hasAvailableMoves gapBoard \<and> has_component3 gapBoard
   \<and> cellAt pairBoard 0 0 = None \<and> cellAt pairBoard 0 1 = None
   \<and> \<not> hasAvailableMoves pairBoard \<and> \<not> has_component3 pairBoard
   \<and> wf_board gapBoard \<and> inj (swapEmpty Green)
   \<and> cellAt (map (map (swapEmpty Green)) gapBoard) 0 0 = Some Green
   \<and> hasAvailableMoves (map (map (swapEmpty Green)) gapBoard)"
proof -
  have w: "wf_board gapBoard" by code_simp
  have i: "in_bounds (0, 0)" "in_bounds (0, 1)" "in_bounds (0, 2)"
    by (simp_all add: in_bounds_def ROWS_def COLS_def)
  have a: "adjacent (0, 0) (0, 1)" "adjacent (0, 1) (0, 2)" "(0, 0) \<noteq> ((0, 2) :: tile)"
    by (simp_all add: adjacent_def)
  have n: "cellAt gapBoard 0 0 = None" "cellAt gapBoard 0 1 = None" "cellAt gapBoard 0 2 = None"
    "cellAt pairBoard 0 0 = None" "cellAt pairBoard 0 1 = None"
    by (simp_all add: cellAt_def gapBoard_def pairBoard_def)
  have g: "cellAt (map (map (swapEmpty Green)) gapBoard) 0 0 = Some Green"
    by (simp add: gapBoard_swapped cellAt_def)
  note t = hasAvailableMoves_empty_is_a_colour
    [of gapBoard "(0, 0)" "(0, 1)" "(0, 2)" "swapEmpty Green", unfolded fst_conv snd_conv]
  from t i a n have h: "hasAvailableMoves gapBoard" by blast
  with t have c: "has_component3 gapBoard" by blast
  from t w inj_swapEmpty [of Green] h
  have s: "hasAvailableMoves (map (map (swapEmpty Green)) gapBoard)" by blast
  from hasAvailableMoves_empty_is_a_colour [of pairBoard] two_empties_pairBoard
  have p: "\<not> has_component3 pairBoard" by blast
  from w i a n g h c s p two_empties_pairBoard no_tile_component3_gapBoard inj_swapEmpty [of Green]
  show ?thesis by blast
qed

end
